theory Spec2Isabelle
  imports Main "HOL-Library.Char_ord" "HOL-Library.List_Lexorder" "HOL-Library.Multiset"
begin

section \<open>SnmpScan.ps1: a sweep of one /24 with snmpget\<close>

text \<open>
  The development follows the second, refactored script of \<^verbatim>\<open>src/SNMP/SnmpScan.ps1\<close>
  (the one that defines \<^verbatim>\<open>Invoke-SnmpCheck\<close>). Strings are lists of 8-bit characters,
  read as the code points 0 to 255. The regular expressions of the script are run by the
  .NET engine under \<^verbatim>\<open>-match\<close>, \<^verbatim>\<open>-replace\<close> and \<^verbatim>\<open>-split\<close>, which ignore letter
  case; each expression is written out below as the function the backtracking engine
  computes for it, with the expression quoted next to it.
\<close>

subsection \<open>Character classes\<close>

text \<open>\<^verbatim>\<open>\d\<close>: on the code points 0 to 255 the decimal digits are 0 to 9.\<close>

definition is_digit :: "char \<Rightarrow> bool" where
  "is_digit c \<longleftrightarrow> c \<in> set ''0123456789''"

text \<open>
  \<^verbatim>\<open>\s\<close> and the characters \<^verbatim>\<open>String.Trim()\<close> removes: tab, line feed, vertical tab,
  form feed, carriage return, space, next line (0x85) and no-break space (0xA0).
\<close>

definition is_space :: "char \<Rightarrow> bool" where
  "is_space c \<longleftrightarrow>
     c \<in> {CHR 0x09, CHR 0x0A, CHR 0x0B, CHR 0x0C, CHR 0x0D, CHR 0x20, CHR 0x85, CHR 0xA0}"

text \<open>Letter case is folded on the letters A to Z, as the invariant culture does for
  the ASCII letters the script's patterns are made of.\<close>

definition to_lower :: "char \<Rightarrow> char" where
  "to_lower c =
     (case map_of (zip ''ABCDEFGHIJKLMNOPQRSTUVWXYZ'' ''abcdefghijklmnopqrstuvwxyz'') c of
        Some l \<Rightarrow> l
      | None \<Rightarrow> c)"

abbreviation LF :: char where
  "LF \<equiv> CHR 0x0A"

abbreviation DQUOTE :: char where
  "DQUOTE \<equiv> CHR 0x22"

subsection \<open>Pieces of the regular expressions\<close>

text \<open>\<^verbatim>\<open>\d+\<close>, greedy, in front of something that is not a digit: all the digits that
  follow, at least one. The result is the rest of the input.\<close>

definition digits1 :: "string \<Rightarrow> string option" where
  "digits1 s = (if takeWhile is_digit s = [] then None else Some (dropWhile is_digit s))"

text \<open>One literal character.\<close>

definition lit :: "char \<Rightarrow> string \<Rightarrow> string option" where
  "lit c s = (case s of [] \<Rightarrow> None | x # r \<Rightarrow> if x = c then Some r else None)"

text \<open>\<^verbatim>\<open>$\<close> without the multiline option: the end of the input, or the position in front
  of a line feed that ends the input.\<close>

definition at_end :: "string \<Rightarrow> bool" where
  "at_end s \<longleftrightarrow> s = [] \<or> s = [LF]"

text \<open>A literal word, letter case ignored. The result is the rest of the input.\<close>

fun starts_with_ci :: "string \<Rightarrow> string \<Rightarrow> string option" where
  "starts_with_ci [] s = Some s"
| "starts_with_ci (p # ps) [] = None"
| "starts_with_ci (p # ps) (c # cs) =
     (if to_lower p = to_lower c then starts_with_ci ps cs else None)"

text \<open>An expression with no anchor is tried at every position, from the left.\<close>

fun first_match :: "(string \<Rightarrow> 'a option) \<Rightarrow> string \<Rightarrow> 'a option" where
  "first_match m [] = m []"
| "first_match m (c # cs) =
     (case m (c # cs) of Some g \<Rightarrow> Some g | None \<Rightarrow> first_match m cs)"

subsection \<open>Parse network\<close>

text \<open>
  \<^verbatim>\<open>$Network -match '^\d+\.\d+\.\d+\.\d+(\/\d+)?$'\<close>.
  The optional group is tried first and dropped when the end does not follow it.
\<close>

definition network_format :: "string \<Rightarrow> bool" where
  "network_format s =
     (case Option.bind (Option.bind (Option.bind (Option.bind (Option.bind (Option.bind
             (digits1 s) (lit CHR ''.'')) digits1) (lit CHR ''.'')) digits1) (lit CHR ''.''))
             digits1 of
        None \<Rightarrow> False
      | Some r \<Rightarrow>
          (case Option.bind (lit CHR ''/'' r) digits1 of
             Some r' \<Rightarrow> at_end r' \<or> at_end r
           | None \<Rightarrow> at_end r))"

text \<open>\<^verbatim>\<open>($Network -split '/')[0]\<close>: the text in front of the first slash.\<close>

definition split_slash_0 :: "string \<Rightarrow> string" where
  "split_slash_0 s = takeWhile (\<lambda>c. c \<noteq> CHR ''/'') s"

text \<open>
  \<^verbatim>\<open>-replace '\.\d+$', ''\<close>: the leftmost dot that is followed by digits up to the end
  is removed with its digits; what follows the match (nothing, or the line feed) stays.
\<close>

fun replace_last_octet :: "string \<Rightarrow> string" where
  "replace_last_octet [] = []"
| "replace_last_octet (c # cs) =
     (if c = CHR ''.'' \<and> (case digits1 cs of Some r \<Rightarrow> at_end r | None \<Rightarrow> False)
      then dropWhile is_digit cs
      else c # replace_last_octet cs)"

datatype error =
    InvalidSpec           \<comment> \<open>throw "Wrong format, please use 10.30.6.0 or 10.30.6.0/24"\<close>
  | ToolNotFound          \<comment> \<open>throw "Can't find 'snmpget' in PATH. ..."\<close>
  | ThreadJobUnavailable  \<comment> \<open>throw "Failed installing ThreadJob. ..."\<close>

definition resolve :: "string \<Rightarrow> error + string" where
  "resolve Network =
     (if network_format Network
      then Inr (replace_last_octet (split_slash_0 Network))
      else Inl InvalidSpec)"

subsection \<open>Numbers in strings\<close>

text \<open>An integer placed in a string or in an argument vector is written in decimal.\<close>

definition digit_char :: "nat \<Rightarrow> char" where
  "digit_char d = ''0123456789'' ! d"

fun dec :: "nat \<Rightarrow> string" where
  "dec n = (if n < 10 then [digit_char n] else dec (n div 10) @ [digit_char (n mod 10)])"

definition int_str :: "int \<Rightarrow> string" where
  "int_str i = (if i < 0 then CHR ''-'' # dec (nat (- i)) else dec (nat i))"

subsection \<open>Response parsing\<close>

text \<open>\<^verbatim>\<open>$output -match 'Timeout|No Such Object'\<close>\<close>

definition negative_here :: "string \<Rightarrow> unit option" where
  "negative_here s =
     (case starts_with_ci ''Timeout'' s of
        Some _ \<Rightarrow> Some ()
      | None \<Rightarrow> (case starts_with_ci ''No Such Object'' s of Some _ \<Rightarrow> Some () | None \<Rightarrow> None))"

definition negative_match :: "string \<Rightarrow> bool" where
  "negative_match output \<longleftrightarrow> first_match negative_here output \<noteq> None"

text \<open>
  \<^verbatim>\<open>$output -match 'STRING:\s*"(.*)"'\<close>, the value being group 1. After the marker the
  white space is skipped and a double quote must follow; \<^verbatim>\<open>.*\<close> runs to the end of the
  line and gives back characters until a double quote closes the match, so the group
  ends in front of the last double quote of the line.
\<close>

definition quoted_here :: "string \<Rightarrow> string option" where
  "quoted_here s =
     (case starts_with_ci ''STRING:'' s of
        None \<Rightarrow> None
      | Some r \<Rightarrow>
          (case dropWhile is_space r of
             [] \<Rightarrow> None
           | q # t \<Rightarrow>
               if q \<noteq> DQUOTE then None
               else
                 (let line = takeWhile (\<lambda>c. c \<noteq> LF) t in
                  if DQUOTE \<in> set line
                  then Some (rev (tl (dropWhile (\<lambda>c. c \<noteq> DQUOTE) (rev line))))
                  else None)))"

text \<open>
  \<^verbatim>\<open>$output -match 'STRING:\s*(.+?)(\s|$)'\<close>, the value being group 1. After the marker
  and the white space, the lazy \<^verbatim>\<open>.+?\<close> takes the characters up to the next white space
  or the end. When only white space follows the marker, \<^verbatim>\<open>\s*\<close> gives characters back
  until \<^verbatim>\<open>.\<close> finds one that is not a line feed: the group is the last such character.
\<close>

definition token_here :: "string \<Rightarrow> string option" where
  "token_here s =
     (case starts_with_ci ''STRING:'' s of
        None \<Rightarrow> None
      | Some r \<Rightarrow>
          (case dropWhile is_space r of
             c # t \<Rightarrow> Some (takeWhile (\<lambda>x. \<not> is_space x) (c # t))
           | [] \<Rightarrow>
               (case dropWhile (\<lambda>x. x = LF) (rev r) of
                  [] \<Rightarrow> None
                | w # _ \<Rightarrow> Some [w])))"

text \<open>\<^verbatim>\<open>.Trim()\<close> and \<^verbatim>\<open>.Trim('"')\<close>\<close>

definition Trim_chars :: "(char \<Rightarrow> bool) \<Rightarrow> string \<Rightarrow> string" where
  "Trim_chars P s = rev (dropWhile P (rev (dropWhile P s)))"

definition Trim :: "string \<Rightarrow> string" where
  "Trim s = Trim_chars is_space s"

text \<open>The value extraction of \<^verbatim>\<open>Invoke-SnmpCheck\<close> (and of the thread job's block):
  the \<^verbatim>\<open>if / elseif / else\<close> that sets \<^verbatim>\<open>$product\<close>.\<close>

definition extract_value :: "string \<Rightarrow> string" where
  "extract_value output =
     (case first_match quoted_here output of
        Some g \<Rightarrow> Trim g
      | None \<Rightarrow>
          (case first_match token_here output of
             Some g \<Rightarrow> Trim (Trim_chars (\<lambda>c. c = DQUOTE) g)
           | None \<Rightarrow> Trim output))"

subsection \<open>The probe\<close>

text \<open>
  What running the external tool gives: the launch fails (the \<^verbatim>\<open>catch\<close> branch), or the
  process ends with an exit status and the text it wrote to standard output. The tool
  is asked for one object and answers on one line, so the captured output is one
  string, empty when nothing was written. Standard error is discarded.
\<close>

datatype tool_result = LaunchFailed | Exited int string

text \<open>The environment's way to run a program: the executable and the argument vector.\<close>

type_synonym tool = "string \<Rightarrow> string list \<Rightarrow> tool_result"

text \<open>Every run of the tool is recorded, in order, with the vector it was given.\<close>

type_synonym invocation = "string \<times> string list"

record result_record =
  IP :: string
  ProductName :: string

text \<open>\<^verbatim>\<open>@("-v2c","-c",$Community,"-t",$Timeout,"-r","1",$IP,$OID)\<close>\<close>

definition snmp_args :: "string \<Rightarrow> int \<Rightarrow> string \<Rightarrow> string \<Rightarrow> string list" where
  "snmp_args community timeout ip oid =
     [''-v2c'', ''-c'', community, ''-t'', int_str timeout, ''-r'', ''1'', ip, oid]"

text \<open>What the probe makes of the tool's result: \<^verbatim>\<open>$null\<close> or a record.\<close>

definition classify :: "string \<Rightarrow> tool_result \<Rightarrow> result_record option" where
  "classify ip res =
     (case res of
        LaunchFailed \<Rightarrow> None
      | Exited status output \<Rightarrow>
          if output = [] then None
          else if negative_match output then None
          else Some \<lparr>IP = ip, ProductName = extract_value output\<rparr>)"

definition Invoke_SnmpCheck ::
  "tool \<Rightarrow> string \<Rightarrow> string \<Rightarrow> string \<Rightarrow> string \<Rightarrow> int \<Rightarrow> invocation list
     \<Rightarrow> result_record option \<times> invocation list" where
  "Invoke_SnmpCheck run ip exe community oid timeout log =
     (let args = snmp_args community timeout ip oid
      in (classify ip (run exe args), log @ [(exe, args)]))"

subsection \<open>The sweep\<close>

text \<open>
  Both strategies walk the hosts 1 to 254 and run one script block for each. The model
  runs the blocks one after the other in the order of dispatch; how many run at the same
  time (\<^verbatim>\<open>-ThrottleLimit\<close>, the polling loop with \<^verbatim>\<open>Start-Sleep\<close>) and the order in which
  they finish are not part of it. A script block writes zero or more objects to the
  pipeline; \<^verbatim>\<open>for_each\<close> collects them.
\<close>

fun for_each ::
  "('a \<Rightarrow> invocation list \<Rightarrow> 'b list \<times> invocation list) \<Rightarrow> 'a list \<Rightarrow> invocation list
     \<Rightarrow> 'b list \<times> invocation list" where
  "for_each body [] log = ([], log)"
| "for_each body (x # xs) log =
     (case body x log of
        (ys, log1) \<Rightarrow> (case for_each body xs log1 of (zs, log2) \<Rightarrow> (ys @ zs, log2)))"

definition hosts :: "nat list" where
  "hosts = [1..<255]"

text \<open>\<^verbatim>\<open>"$BaseNetwork.$i"\<close>\<close>

definition host_address :: "string \<Rightarrow> nat \<Rightarrow> string" where
  "host_address BaseNetwork i = BaseNetwork @ ''.'' @ dec i"

text \<open>
  Where a script block runs. The script's own scope holds the function
  \<^verbatim>\<open>Invoke-SnmpCheck\<close> that the script defines. \<^verbatim>\<open>ForEach-Object -Parallel\<close> runs each block
  in a new runspace: the values named with \<^verbatim>\<open>$using:\<close> are copied into it, the functions
  of the script are not.
\<close>

datatype runspace = Script_scope | Parallel_runspace

definition function_defined :: "runspace \<Rightarrow> string \<Rightarrow> bool" where
  "function_defined rs name \<longleftrightarrow> rs = Script_scope \<and> name = ''Invoke-SnmpCheck''"

text \<open>
  PowerShell 7: \<^verbatim>\<open>1..254 | ForEach-Object -Parallel { ... Invoke-SnmpCheck ... }\<close>.
  The block forms the address and calls \<^verbatim>\<open>Invoke-SnmpCheck\<close>. It does not define the
  function itself (the thread job's block repeats the body of the helper, this block
  does not), so in its runspace the command is not found: the block ends with an error
  that does not stop the pipeline, writes no object and runs no tool. Were the function
  found, its \<^verbatim>\<open>$null\<close> or its record would be the one object of the block.
\<close>

definition parallel_block ::
  "tool \<Rightarrow> string \<Rightarrow> string \<Rightarrow> string \<Rightarrow> string \<Rightarrow> int \<Rightarrow> nat \<Rightarrow> invocation list
     \<Rightarrow> result_record option list \<times> invocation list" where
  "parallel_block run BaseNetwork exe community oid timeout i log =
     (let ip = host_address BaseNetwork i
      in if function_defined Parallel_runspace ''Invoke-SnmpCheck''
         then (case Invoke_SnmpCheck run ip exe community oid timeout log of
                 (r, log') \<Rightarrow> ([r], log'))
         else ([], log))"

definition sweep_parallel ::
  "tool \<Rightarrow> string \<Rightarrow> string \<Rightarrow> string \<Rightarrow> string \<Rightarrow> int \<Rightarrow> invocation list
     \<Rightarrow> result_record option list \<times> invocation list" where
  "sweep_parallel run BaseNetwork exe community oid timeout log =
     for_each (parallel_block run BaseNetwork exe community oid timeout) hosts log"

text \<open>
  Windows PowerShell 5.1: one thread job per host, \<^verbatim>\<open>Receive-Job -Wait\<close> at the end.
  The job's block repeats the probe with a bare \<^verbatim>\<open>return\<close> where the function has
  \<^verbatim>\<open>return $null\<close>: a host that gives no value writes nothing.
\<close>

definition thread_job ::
  "tool \<Rightarrow> string \<Rightarrow> string \<Rightarrow> string \<Rightarrow> string \<Rightarrow> int \<Rightarrow> invocation list
     \<Rightarrow> result_record option list \<times> invocation list" where
  "thread_job run ip exe community oid timeout log =
     (let args = snmp_args community timeout ip oid;
          log' = log @ [(exe, args)]
      in case run exe args of
           LaunchFailed \<Rightarrow> ([], log')
         | Exited status output \<Rightarrow>
             if output = [] then ([], log')
             else if negative_match output then ([], log')
             else ([Some \<lparr>IP = ip, ProductName = extract_value output\<rparr>], log'))"

definition sweep_threadjob ::
  "tool \<Rightarrow> string \<Rightarrow> string \<Rightarrow> string \<Rightarrow> string \<Rightarrow> int \<Rightarrow> invocation list
     \<Rightarrow> result_record option list \<times> invocation list" where
  "sweep_threadjob run BaseNetwork exe community oid timeout log =
     for_each (\<lambda>i l. thread_job run (host_address BaseNetwork i) exe community oid timeout l)
       hosts log"

subsection \<open>The report\<close>

text \<open>
  \<^verbatim>\<open>if ($Results)\<close>: no object is false, one object counts as the object itself does
  (\<^verbatim>\<open>$null\<close> is false, a record is true), and two or more objects are an array, which is
  true whatever it holds.
\<close>

fun is_true :: "result_record option list \<Rightarrow> bool" where
  "is_true [] = False"
| "is_true [r] = (r \<noteq> None)"
| "is_true (r # r' # rs) = True"

text \<open>\<^verbatim>\<open>Where-Object { $_ }\<close> keeps the records and drops every \<^verbatim>\<open>$null\<close>.\<close>

definition where_object :: "result_record option list \<Rightarrow> result_record list" where
  "where_object rs = List.map_filter id rs"

text \<open>
  \<^verbatim>\<open>Sort-Object IP\<close>: the property is a string, and strings are compared as text. On the
  addresses of a scan (digits and dots) that is the order character by character, a
  proper prefix first.
\<close>

definition Sort_Object_IP :: "result_record list \<Rightarrow> result_record list" where
  "Sort_Object_IP rs = sort_key IP rs"

text \<open>What the script prints: the yellow line, or the table of the records (a table of
  no record prints nothing).\<close>

datatype report = No_snmp_devices | Format_Table "result_record list"

definition aggregate :: "result_record option list \<Rightarrow> report" where
  "aggregate Results =
     (if is_true Results then Format_Table (Sort_Object_IP (where_object Results))
      else No_snmp_devices)"

subsection \<open>The script\<close>

definition Community :: string where
  "Community = ''admin''"

definition OID :: string where
  "OID = ''.1.3.6.1.4.1.4515.1.3.6.1.1.1.2.0''"

definition SnmpExe :: string where
  "SnmpExe = ''snmpget''"

definition Timeout :: int where
  "Timeout = 1"

definition MaxThreads :: nat where
  "MaxThreads = 100"

text \<open>What the script asks of its host: the major version of PowerShell, whether
  \<^verbatim>\<open>Get-Command\<close> finds a program, whether the ThreadJob module is listed, whether
  \<^verbatim>\<open>Install-Module\<close> succeeds, and the way to run a program.\<close>

record environment =
  PSVersion_Major :: nat
  Get_Command :: "string \<Rightarrow> bool"
  ThreadJob_listed :: bool
  Install_Module_ok :: bool
  run_native :: tool

definition SnmpScan :: "environment \<Rightarrow> string \<Rightarrow> (error + report) \<times> invocation list" where
  "SnmpScan env Network =
     (case resolve Network of
        Inl e \<Rightarrow> (Inl e, [])
      | Inr BaseNetwork \<Rightarrow>
          if \<not> Get_Command env SnmpExe then (Inl ToolNotFound, [])
          else if 7 \<le> PSVersion_Major env then
            (case sweep_parallel (run_native env) BaseNetwork SnmpExe Community OID Timeout [] of
               (Results, log) \<Rightarrow> (Inr (aggregate Results), log))
          else if \<not> ThreadJob_listed env \<and> \<not> Install_Module_ok env then
            (Inl ThreadJobUnavailable, [])
          else
            (case sweep_threadjob (run_native env) BaseNetwork SnmpExe Community OID Timeout [] of
               (Results, log) \<Rightarrow> (Inr (aggregate Results), log)))"

subsection \<open>Words of the specification\<close>

text \<open>A number: one or more decimal digits.\<close>

definition number :: "string \<Rightarrow> bool" where
  "number s \<longleftrightarrow> s \<noteq> [] \<and> list_all is_digit s"

text \<open>The shape \<open>A.B.C.D\<close>.\<close>

definition dotted_quad :: "string \<Rightarrow> string \<Rightarrow> string \<Rightarrow> string \<Rightarrow> string" where
  "dotted_quad a b c d = a @ ''.'' @ b @ ''.'' @ c @ ''.'' @ d"

text \<open>The shape \<open>A.B.C.D\<close> or \<open>A.B.C.D/mask\<close>, each part a number.\<close>

definition network_spec_shape :: "string \<Rightarrow> bool" where
  "network_spec_shape s \<longleftrightarrow>
     (\<exists>a b c d. number a \<and> number b \<and> number c \<and> number d \<and>
        (s = dotted_quad a b c d \<or> (\<exists>m. number m \<and> s = dotted_quad a b c d @ ''/'' @ m)))"

text \<open>The text contains the word somewhere, in any letter case.\<close>

definition contains_any_case :: "string \<Rightarrow> string \<Rightarrow> bool" where
  "contains_any_case word s \<longleftrightarrow>
     (\<exists>pre mid post. s = pre @ mid @ post \<and> map to_lower mid = map to_lower word)"

text \<open>The value of a string of decimal digits.\<close>

definition digits_value :: "string \<Rightarrow> nat" where
  "digits_value s = foldl (\<lambda>n c. 10 * n + (of_char c - 48)) 0 s"

text \<open>The number an address ends in: the value of what follows its last dot.\<close>

definition last_octet :: "string \<Rightarrow> nat" where
  "last_octet ip = digits_value (rev (takeWhile (\<lambda>c. c \<noteq> CHR ''.'') (rev ip)))"

text \<open>The outcome of the probe of one address: what \<^verbatim>\<open>Invoke-SnmpCheck\<close> returns.\<close>

definition probe :: "tool \<Rightarrow> string \<Rightarrow> string \<Rightarrow> string \<Rightarrow> int \<Rightarrow> string \<Rightarrow> result_record option" where
  "probe run exe community oid timeout ip =
     fst (Invoke_SnmpCheck run ip exe community oid timeout [])"

subsection \<open>Test doubles\<close>

text \<open>A tool no host answers: snmpget reports the timeout on standard error, writes
  nothing to standard output and exits with status 1.\<close>

definition silent_tool :: tool where
  "silent_tool exe args = Exited 1 []"

text \<open>A tool that fails and still writes a line to standard output.\<close>

definition failing_tool :: tool where
  "failing_tool exe args = Exited 1 ''usage: snmpget [OPTIONS] AGENT OID''"

text \<open>The tool of the end-to-end scenario: hosts .5 and .200 of 10.30.6 answer.\<close>

definition scenario_tool :: tool where
  "scenario_tool exe args =
     (case args of
        [v, c, community, t, timeout, r, retries, ip, oid] \<Rightarrow>
          if ip = ''10.30.6.5'' then Exited 0 (oid @ '' = STRING: '' @ [DQUOTE] @ ''DeviceA'' @ [DQUOTE])
          else if ip = ''10.30.6.200'' then Exited 0 (oid @ '' = STRING: '' @ [DQUOTE] @ ''DeviceB'' @ [DQUOTE])
          else Exited 0 (oid @ '' = No Such Object available on this agent at this OID'')
      | _ \<Rightarrow> LaunchFailed)"

text \<open>A tool whose answer holds a value and, in capitals, the timeout marker.\<close>

definition marker_tool :: tool where
  "marker_tool exe args = Exited 0 (''STRING: '' @ [DQUOTE] @ ''Model X'' @ [DQUOTE] @ '' (TIMEOUT)'')"

definition ps7_env :: "tool \<Rightarrow> environment" where
  "ps7_env t = \<lparr>PSVersion_Major = 7, Get_Command = (\<lambda>name. name = ''snmpget''),
     ThreadJob_listed = True, Install_Module_ok = True, run_native = t\<rparr>"

definition ps5_env :: "tool \<Rightarrow> environment" where
  "ps5_env t = \<lparr>PSVersion_Major = 5, Get_Command = (\<lambda>name. name = ''snmpget''),
     ThreadJob_listed = True, Install_Module_ok = True, run_native = t\<rparr>"

section \<open>Properties\<close>

declare dec.simps [simp del]

subsection \<open>Loops and probes\<close>

lemma for_each_log:
  assumes "\<And>x l. snd (body x l) = l @ [g x]"
  shows "snd (for_each body xs log) = log @ map g xs"
  using assms
proof (induction xs arbitrary: log)
  case Nil
  then show ?case by simp
next
  case (Cons x xs)
  obtain ys l1 where b: "body x log = (ys, l1)" by (cases "body x log")
  obtain zs l2 where r: "for_each body xs l1 = (zs, l2)" by (cases "for_each body xs l1")
  have "l1 = log @ [g x]" using Cons.prems [of x log] b by simp
  moreover have "l2 = l1 @ map g xs" using Cons.IH [of l1] Cons.prems r by simp
  ultimately show ?case using b r by simp
qed

lemma for_each_out:
  assumes "\<And>x l. fst (body x l) = h x"
  shows "fst (for_each body xs log) = concat (map h xs)"
  using assms
proof (induction xs arbitrary: log)
  case Nil
  then show ?case by simp
next
  case (Cons x xs)
  obtain ys l1 where b: "body x log = (ys, l1)" by (cases "body x log")
  obtain zs l2 where r: "for_each body xs l1 = (zs, l2)" by (cases "for_each body xs l1")
  have "ys = h x" using Cons.prems [of x log] b by simp
  moreover have "zs = concat (map h xs)" using Cons.IH [of l1] Cons.prems r by simp
  ultimately show ?case using b r by simp
qed

lemma probe_classify:
  "probe run exe community oid timeout ip =
     classify ip (run exe (snmp_args community timeout ip oid))"
  by (simp add: probe_def Invoke_SnmpCheck_def Let_def)

lemma Invoke_SnmpCheck_out:
  "fst (Invoke_SnmpCheck run ip exe community oid timeout log) =
     probe run exe community oid timeout ip"
  by (simp add: probe_def Invoke_SnmpCheck_def Let_def)

lemma Invoke_SnmpCheck_log:
  "snd (Invoke_SnmpCheck run ip exe community oid timeout log) =
     log @ [(exe, snmp_args community timeout ip oid)]"
  by (simp add: Invoke_SnmpCheck_def Let_def)

lemma thread_job_out:
  "fst (thread_job run ip exe community oid timeout log) =
     (case probe run exe community oid timeout ip of None \<Rightarrow> [] | Some r \<Rightarrow> [Some r])"
  by (simp add: thread_job_def probe_classify classify_def Let_def split: tool_result.splits)

lemma thread_job_log:
  "snd (thread_job run ip exe community oid timeout log) =
     log @ [(exe, snmp_args community timeout ip oid)]"
  by (simp add: thread_job_def Let_def split: tool_result.splits)

lemma for_each_nothing:
  assumes "\<And>x l. body x l = ([], l)"
  shows "for_each body xs log = ([], log)"
  using assms by (induction xs arbitrary: log) simp_all

lemma parallel_block_nothing:
  "parallel_block run base exe community oid timeout i log = ([], log)"
  by (simp add: parallel_block_def function_defined_def)

lemma sweep_parallel_nothing:
  "sweep_parallel run base exe community oid timeout log = ([], log)"
  unfolding sweep_parallel_def by (rule for_each_nothing) (rule parallel_block_nothing)

lemma sweep_threadjob_log:
  "snd (sweep_threadjob run base exe community oid timeout log) =
     log @ map (\<lambda>i. (exe, snmp_args community timeout (host_address base i) oid)) hosts"
  unfolding sweep_threadjob_def
  by (rule for_each_log) (simp add: thread_job_log)

lemma concat_option:
  "concat (map (\<lambda>x. case f x of None \<Rightarrow> [] | Some r \<Rightarrow> [Some r]) xs) =
     map Some (List.map_filter f xs)"
  by (induction xs) (auto simp: List.map_filter_simps split: option.splits)

lemma sweep_threadjob_out:
  "fst (sweep_threadjob run base exe community oid timeout log) =
     map Some (List.map_filter
       (\<lambda>i. probe run exe community oid timeout (host_address base i)) hosts)"
proof -
  have "fst (sweep_threadjob run base exe community oid timeout log) =
     concat (map (\<lambda>i. case probe run exe community oid timeout (host_address base i) of
                         None \<Rightarrow> [] | Some r \<Rightarrow> [Some r]) hosts)"
    unfolding sweep_threadjob_def
    by (rule for_each_out) (simp add: thread_job_out)
  then show ?thesis by (simp add: concat_option)
qed

lemma SnmpScan_ps7:
  assumes "resolve Network = Inr base" and "Get_Command env SnmpExe"
    and "7 \<le> PSVersion_Major env"
  shows "SnmpScan env Network = (Inr No_snmp_devices, [])"
  using assms by (simp add: SnmpScan_def sweep_parallel_nothing aggregate_def)

lemma SnmpScan_ps5:
  assumes "resolve Network = Inr base" and "Get_Command env SnmpExe"
    and "\<not> 7 \<le> PSVersion_Major env" and "ThreadJob_listed env \<or> Install_Module_ok env"
  shows "SnmpScan env Network =
     (Inr (aggregate (map Some (List.map_filter
         (\<lambda>i. probe (run_native env) SnmpExe Community OID Timeout (host_address base i)) hosts))),
      map (\<lambda>i. (SnmpExe, snmp_args Community Timeout (host_address base i) OID)) hosts)"
proof -
  obtain rs l where s:
    "sweep_threadjob (run_native env) base SnmpExe Community OID Timeout [] = (rs, l)"
    by (cases "sweep_threadjob (run_native env) base SnmpExe Community OID Timeout []")
  have "rs = map Some (List.map_filter
         (\<lambda>i. probe (run_native env) SnmpExe Community OID Timeout (host_address base i)) hosts)"
    using sweep_threadjob_out [of "run_native env" base SnmpExe Community OID Timeout "[]"] s
    by simp
  moreover have "l = map (\<lambda>i. (SnmpExe, snmp_args Community Timeout (host_address base i) OID)) hosts"
    using sweep_threadjob_log [of "run_native env" base SnmpExe Community OID Timeout "[]"] s
    by simp
  ultimately show ?thesis using assms s by (auto simp add: SnmpScan_def)
qed

subsection \<open>Decimal numbers\<close>

lemma digit_char_value: "n < 10 \<Longrightarrow> of_char (digit_char n) = 48 + n"
proof -
  assume "n < 10"
  then have "n \<in> {0, 1, 2, 3, 4, 5, 6, 7, 8, 9}" by auto
  then show ?thesis by (auto simp: digit_char_def)
qed

lemma digits_value_snoc:
  "digits_value (s @ [c]) = 10 * digits_value s + (of_char c - 48)"
  by (simp add: digits_value_def)

lemma digits_value_dec: "digits_value (dec n) = n"
proof (induction n rule: dec.induct)
  case (1 n)
  show ?case
  proof (cases "n < 10")
    case True
    then show ?thesis by (simp add: dec.simps digits_value_def digit_char_value)
  next
    case False
    have m: "n mod 10 < 10" by simp
    have "digits_value (dec n) =
        10 * digits_value (dec (n div 10)) + (of_char (digit_char (n mod 10)) - 48)"
      using False by (subst dec.simps) (simp add: digits_value_snoc)
    also have "\<dots> = 10 * (n div 10) + n mod 10"
      using 1 False digit_char_value [OF m] by simp
    finally show ?thesis by simp
  qed
qed

lemma dec_inj: "dec m = dec n \<Longrightarrow> m = n"
  by (metis digits_value_dec)

lemma host_address_inj: "host_address base i = host_address base j \<Longrightarrow> i = j"
  by (simp add: host_address_def dec_inj)

lemma distinct_targets: "distinct (map (host_address base) hosts)"
  by (simp add: distinct_map hosts_def inj_on_def host_address_inj)

lemma length_hosts: "length hosts = 254"
  by (simp add: hosts_def)

lemma probe_IP: "probe run exe community oid timeout ip = Some r \<Longrightarrow> IP r = ip"
  by (auto simp: probe_classify classify_def split: tool_result.splits if_splits)

lemma map_IP_map_filter_probe:
  "map IP (List.map_filter (probe run exe community oid timeout) ts) =
     filter (\<lambda>ip. probe run exe community oid timeout ip \<noteq> None) ts"
  by (induction ts) (auto simp: List.map_filter_simps probe_IP split: option.splits)

lemma map_filter_comp: "List.map_filter f (map g xs) = List.map_filter (\<lambda>x. f (g x)) xs"
  by (induction xs) (simp_all add: List.map_filter_simps split: option.splits)

lemma where_object_map_Some: "where_object (map Some ys) = ys"
  by (induction ys) (simp_all add: where_object_def List.map_filter_simps)

lemma is_true_Some: "Some r \<in> set rs \<Longrightarrow> is_true rs"
  by (induction rs rule: is_true.induct) auto

lemma resolve_example: "resolve ''10.30.6.0/24'' = Inr ''10.30.6''"
  by code_simp

lemma hosts_Cons: "hosts = 1 # [2..<255]"
  by (simp add: hosts_def upt_conv_Cons)

subsection \<open>The argument vector\<close>

text \<open>
  C3. Every probe runs the tool on the nine separate arguments protocol version,
  credential flag, credential value, timeout flag, timeout value, retry flag, retry
  value, target address, query identifier, and its outcome is what the tool answers to
  that vector: in the function, in the thread job, and in a whole scan, whose report on
  the thread job path is made of the tool's answers to the vectors of the 254 targets
  and whose runs of the tool all have this form. The address, the credential and the
  identifier are elements of the vector as they are; no command line is built from them.
\<close>

theorem probe_argument_vector:
  "Invoke_SnmpCheck run ip exe community oid timeout log =
     (classify ip (run exe
        [''-v2c'', ''-c'', community, ''-t'', int_str timeout, ''-r'', ''1'', ip, oid]),
      log @ [(exe, [''-v2c'', ''-c'', community, ''-t'', int_str timeout, ''-r'', ''1'', ip, oid])])
   \<and> thread_job run ip exe community oid timeout log =
     ((case classify ip (run exe
              [''-v2c'', ''-c'', community, ''-t'', int_str timeout, ''-r'', ''1'', ip, oid]) of
         None \<Rightarrow> [] | Some r \<Rightarrow> [Some r]),
      log @ [(exe, [''-v2c'', ''-c'', community, ''-t'', int_str timeout, ''-r'', ''1'', ip, oid])])
   \<and> (resolve Network = Inr base \<and> Get_Command env SnmpExe \<and> \<not> 7 \<le> PSVersion_Major env
        \<and> (ThreadJob_listed env \<or> Install_Module_ok env) \<longrightarrow>
      SnmpScan env Network =
        (Inr (aggregate (map Some (List.map_filter
           (\<lambda>i. classify (host_address base i) (run_native env ''snmpget''
                   [''-v2c'', ''-c'', ''admin'', ''-t'', ''1'', ''-r'', ''1'', host_address base i,
                    ''.1.3.6.1.4.1.4515.1.3.6.1.1.1.2.0''])) hosts))),
         map (\<lambda>i. (''snmpget'', [''-v2c'', ''-c'', ''admin'', ''-t'', ''1'', ''-r'', ''1'',
                host_address base i, ''.1.3.6.1.4.1.4515.1.3.6.1.1.1.2.0''])) hosts))
   \<and> (\<forall>inv \<in> set (snd (SnmpScan env Network)).
        \<exists>b. resolve Network = Inr b \<and>
          (\<exists>i \<in> set hosts. inv =
             (''snmpget'', [''-v2c'', ''-c'', ''admin'', ''-t'', ''1'', ''-r'', ''1'',
                host_address b i, ''.1.3.6.1.4.1.4515.1.3.6.1.1.1.2.0''])))"
proof (intro conjI ballI impI)
  show "Invoke_SnmpCheck run ip exe community oid timeout log =
     (classify ip (run exe
        [''-v2c'', ''-c'', community, ''-t'', int_str timeout, ''-r'', ''1'', ip, oid]),
      log @ [(exe, [''-v2c'', ''-c'', community, ''-t'', int_str timeout, ''-r'', ''1'', ip, oid])])"
    by (simp add: Invoke_SnmpCheck_def Let_def snmp_args_def)
  have "thread_job run ip exe community oid timeout log =
     (fst (thread_job run ip exe community oid timeout log),
      snd (thread_job run ip exe community oid timeout log))"
    by simp
  then show "thread_job run ip exe community oid timeout log =
     ((case classify ip (run exe
              [''-v2c'', ''-c'', community, ''-t'', int_str timeout, ''-r'', ''1'', ip, oid]) of
         None \<Rightarrow> [] | Some r \<Rightarrow> [Some r]),
      log @ [(exe, [''-v2c'', ''-c'', community, ''-t'', int_str timeout, ''-r'', ''1'', ip, oid])])"
    by (simp only: thread_job_out thread_job_log probe_classify snmp_args_def)
next
  have one: "int_str Timeout = ''1''"
    by (simp add: Timeout_def int_str_def dec.simps digit_char_def)
  have vec: "\<And>b i. snmp_args Community Timeout (host_address b i) OID =
      [''-v2c'', ''-c'', ''admin'', ''-t'', ''1'', ''-r'', ''1'',
         host_address b i, ''.1.3.6.1.4.1.4515.1.3.6.1.1.1.2.0'']"
    by (simp add: snmp_args_def one Community_def OID_def)
  have exe: "SnmpExe = ''snmpget''"
    by (simp add: SnmpExe_def)
  {
    assume h: "resolve Network = Inr base \<and> Get_Command env SnmpExe \<and> \<not> 7 \<le> PSVersion_Major env
        \<and> (ThreadJob_listed env \<or> Install_Module_ok env)"
    then have "SnmpScan env Network =
     (Inr (aggregate (map Some (List.map_filter
         (\<lambda>i. probe (run_native env) SnmpExe Community OID Timeout (host_address base i)) hosts))),
      map (\<lambda>i. (SnmpExe, snmp_args Community Timeout (host_address base i) OID)) hosts)"
      by (intro SnmpScan_ps5) simp_all
    then show "SnmpScan env Network =
        (Inr (aggregate (map Some (List.map_filter
           (\<lambda>i. classify (host_address base i) (run_native env ''snmpget''
                   [''-v2c'', ''-c'', ''admin'', ''-t'', ''1'', ''-r'', ''1'', host_address base i,
                    ''.1.3.6.1.4.1.4515.1.3.6.1.1.1.2.0''])) hosts))),
         map (\<lambda>i. (''snmpget'', [''-v2c'', ''-c'', ''admin'', ''-t'', ''1'', ''-r'', ''1'',
                host_address base i, ''.1.3.6.1.4.1.4515.1.3.6.1.1.1.2.0''])) hosts)"
      by (simp only: probe_classify vec exe)
  }
  fix inv
  assume inv: "inv \<in> set (snd (SnmpScan env Network))"
  show "\<exists>b. resolve Network = Inr b \<and>
          (\<exists>i \<in> set hosts. inv =
             (''snmpget'', [''-v2c'', ''-c'', ''admin'', ''-t'', ''1'', ''-r'', ''1'',
                host_address b i, ''.1.3.6.1.4.1.4515.1.3.6.1.1.1.2.0'']))"
  proof (cases "resolve Network")
    case (Inl e)
    then show ?thesis using inv by (simp add: SnmpScan_def)
  next
    case (Inr b)
    show ?thesis
    proof (cases "Get_Command env SnmpExe")
      case False
      then show ?thesis using inv Inr by (simp add: SnmpScan_def)
    next
      case True
      show ?thesis
      proof (cases "7 \<le> PSVersion_Major env")
        case True
        then show ?thesis
          using inv SnmpScan_ps7 [OF Inr \<open>Get_Command env SnmpExe\<close> True] by simp
      next
        case False
        show ?thesis
        proof (cases "ThreadJob_listed env \<or> Install_Module_ok env")
          case True
          from inv obtain i where "i \<in> set hosts"
            and "inv = (SnmpExe, snmp_args Community Timeout (host_address b i) OID)"
            using SnmpScan_ps5 [OF Inr \<open>Get_Command env SnmpExe\<close> False True] by auto
          then show ?thesis using Inr vec exe by auto
        next
          case nomod: False
          then show ?thesis
            using inv Inr \<open>Get_Command env SnmpExe\<close> False by (simp add: SnmpScan_def)
        qed
      qed
    qed
  qed
qed

theorem probe_argument_vector_witness:
  "resolve ''10.30.6.0/24'' = Inr ''10.30.6''
   \<and> Get_Command (ps5_env silent_tool) SnmpExe
   \<and> \<not> 7 \<le> PSVersion_Major (ps5_env silent_tool)
   \<and> ThreadJob_listed (ps5_env silent_tool)
   \<and> (''snmpget'', [''-v2c'', ''-c'', ''admin'', ''-t'', ''1'', ''-r'', ''1'', ''10.30.6.1'',
      ''.1.3.6.1.4.1.4515.1.3.6.1.1.1.2.0''])
     \<in> set (snd (SnmpScan (ps5_env silent_tool) ''10.30.6.0/24''))
   \<and> (\<exists>b. resolve ''10.30.6.0/24'' = Inr b \<and>
        (\<exists>i \<in> set hosts.
           (''snmpget'', [''-v2c'', ''-c'', ''admin'', ''-t'', ''1'', ''-r'', ''1'', ''10.30.6.1'',
              ''.1.3.6.1.4.1.4515.1.3.6.1.1.1.2.0'']) =
           (''snmpget'', [''-v2c'', ''-c'', ''admin'', ''-t'', ''1'', ''-r'', ''1'',
              host_address b i, ''.1.3.6.1.4.1.4515.1.3.6.1.1.1.2.0''])))
   \<and> Invoke_SnmpCheck failing_tool ''10.30.6.1'' ''snmpget'' ''admin'' ''.1.3'' 1 [] =
       (Some \<lparr>IP = ''10.30.6.1'', ProductName = ''usage: snmpget [OPTIONS] AGENT OID''\<rparr>,
        [(''snmpget'', [''-v2c'', ''-c'', ''admin'', ''-t'', ''1'', ''-r'', ''1'', ''10.30.6.1'', ''.1.3''])])"
proof -
  note t = probe_argument_vector [of failing_tool "''10.30.6.1''" "''snmpget''" "''admin''"
      "''.1.3''" 1 "[]" "''10.30.6.0/24''" "''10.30.6''" "ps5_env silent_tool"]
  have g: "Get_Command (ps5_env silent_tool) SnmpExe"
    and v: "\<not> 7 \<le> PSVersion_Major (ps5_env silent_tool)"
    and j: "ThreadJob_listed (ps5_env silent_tool)"
    by (simp_all add: ps5_env_def SnmpExe_def)
  have h: "resolve ''10.30.6.0/24'' = Inr ''10.30.6'' \<and> Get_Command (ps5_env silent_tool) SnmpExe
      \<and> \<not> 7 \<le> PSVersion_Major (ps5_env silent_tool)
      \<and> (ThreadJob_listed (ps5_env silent_tool) \<or> Install_Module_ok (ps5_env silent_tool))"
    using resolve_example g v j by simp
  have scan: "snd (SnmpScan (ps5_env silent_tool) ''10.30.6.0/24'') =
      map (\<lambda>i. (''snmpget'', [''-v2c'', ''-c'', ''admin'', ''-t'', ''1'', ''-r'', ''1'',
                host_address ''10.30.6'' i, ''.1.3.6.1.4.1.4515.1.3.6.1.1.1.2.0''])) hosts"
    using t [THEN conjunct2, THEN conjunct2, THEN conjunct1, rule_format, OF h]
    by (simp only: snd_conv)
  have a1: "host_address ''10.30.6'' 1 = ''10.30.6.1''"
    by (simp add: host_address_def dec.simps digit_char_def)
  have mem: "(''snmpget'', [''-v2c'', ''-c'', ''admin'', ''-t'', ''1'', ''-r'', ''1'', ''10.30.6.1'',
      ''.1.3.6.1.4.1.4515.1.3.6.1.1.1.2.0''])
     \<in> set (snd (SnmpScan (ps5_env silent_tool) ''10.30.6.0/24''))"
    unfolding scan hosts_Cons using a1 by simp
  have ex: "\<exists>b. resolve ''10.30.6.0/24'' = Inr b \<and>
        (\<exists>i \<in> set hosts.
           (''snmpget'', [''-v2c'', ''-c'', ''admin'', ''-t'', ''1'', ''-r'', ''1'', ''10.30.6.1'',
              ''.1.3.6.1.4.1.4515.1.3.6.1.1.1.2.0'']) =
           (''snmpget'', [''-v2c'', ''-c'', ''admin'', ''-t'', ''1'', ''-r'', ''1'',
              host_address b i, ''.1.3.6.1.4.1.4515.1.3.6.1.1.1.2.0'']))"
    using t [THEN conjunct2, THEN conjunct2, THEN conjunct2] mem by blast
  have c: "classify ''10.30.6.1'' (failing_tool ''snmpget''
        [''-v2c'', ''-c'', ''admin'', ''-t'', int_str 1, ''-r'', ''1'', ''10.30.6.1'', ''.1.3'']) =
      Some \<lparr>IP = ''10.30.6.1'', ProductName = ''usage: snmpget [OPTIONS] AGENT OID''\<rparr>"
    by code_simp
  have i1: "int_str 1 = ''1''"
    by (simp add: int_str_def dec.simps digit_char_def)
  have inv: "Invoke_SnmpCheck failing_tool ''10.30.6.1'' ''snmpget'' ''admin'' ''.1.3'' 1 [] =
       (Some \<lparr>IP = ''10.30.6.1'', ProductName = ''usage: snmpget [OPTIONS] AGENT OID''\<rparr>,
        [(''snmpget'', [''-v2c'', ''-c'', ''admin'', ''-t'', ''1'', ''-r'', ''1'', ''10.30.6.1'', ''.1.3''])])"
    using t [THEN conjunct1] c i1 by simp
  show ?thesis
    by (intro conjI) (rule resolve_example g v j mem ex inv)+
qed

subsection \<open>The order of the report\<close>

text \<open>
  C1, as the claim states it: the report for the addresses .2, .10, .1 would be .1, .2,
  .10. The script sorts on the address as text, and the report is .1, .10, .2, which is
  not in the order of the last octets.
\<close>

theorem aggregate_numeric_order_counterexample:
  "aggregate [Some \<lparr>IP = ''10.30.6.2'', ProductName = ''b''\<rparr>,
              Some \<lparr>IP = ''10.30.6.10'', ProductName = ''c''\<rparr>,
              Some \<lparr>IP = ''10.30.6.1'', ProductName = ''a''\<rparr>] =
     Format_Table [\<lparr>IP = ''10.30.6.1'', ProductName = ''a''\<rparr>,
                   \<lparr>IP = ''10.30.6.10'', ProductName = ''c''\<rparr>,
                   \<lparr>IP = ''10.30.6.2'', ProductName = ''b''\<rparr>]
   \<and> map last_octet [''10.30.6.1'', ''10.30.6.10'', ''10.30.6.2''] = [1, 10, 2]"
  by code_simp

text \<open>
  C1, amended: when at least one outcome is a value, the report is the table of the
  surviving records, each once, in the order of their addresses as text (character by
  character, a proper prefix first).
\<close>

theorem aggregate_orders_by_address_text:
  assumes "Some r \<in> set Results"
  shows "\<exists>recs. aggregate Results = Format_Table recs \<and> sorted (map IP recs) \<and>
           mset recs = mset (where_object Results)"
  using assms by (simp add: aggregate_def is_true_Some Sort_Object_IP_def)

theorem aggregate_orders_by_address_text_witness:
  "Some \<lparr>IP = ''10.30.6.2'', ProductName = ''b''\<rparr>
     \<in> set [Some \<lparr>IP = ''10.30.6.2'', ProductName = ''b''\<rparr>, None,
            Some \<lparr>IP = ''10.30.6.10'', ProductName = ''c''\<rparr>]
   \<and> (\<exists>recs. aggregate [Some \<lparr>IP = ''10.30.6.2'', ProductName = ''b''\<rparr>, None,
                         Some \<lparr>IP = ''10.30.6.10'', ProductName = ''c''\<rparr>] = Format_Table recs
         \<and> sorted (map IP recs)
         \<and> mset recs = mset (where_object [Some \<lparr>IP = ''10.30.6.2'', ProductName = ''b''\<rparr>, None,
                         Some \<lparr>IP = ''10.30.6.10'', ProductName = ''c''\<rparr>]))"
proof -
  have h: "Some \<lparr>IP = ''10.30.6.2'', ProductName = ''b''\<rparr>
     \<in> set [Some \<lparr>IP = ''10.30.6.2'', ProductName = ''b''\<rparr>, None,
            Some \<lparr>IP = ''10.30.6.10'', ProductName = ''c''\<rparr>]"
    by simp
  from aggregate_orders_by_address_text [OF h] h show ?thesis by blast
qed

subsection \<open>No host answers\<close>

lemma probe_silent: "probe silent_tool exe community oid timeout ip = None"
  by (simp add: probe_classify classify_def silent_tool_def)

lemma map_filter_None: "List.map_filter (\<lambda>x. None) xs = []"
  by (induction xs) (simp_all add: List.map_filter_simps)

lemma map_filter_all_None:
  assumes "\<And>x. x \<in> set xs \<Longrightarrow> f x = None"
  shows "List.map_filter f xs = []"
  using assms by (induction xs) (simp_all add: List.map_filter_simps)

lemma aggregate_nothing: "aggregate [] = No_snmp_devices"
  by (simp add: aggregate_def)

lemma aggregate_records:
  assumes "recs \<noteq> []"
  shows "aggregate (map Some recs) = Format_Table (Sort_Object_IP recs)"
proof -
  obtain r rs where "recs = r # rs" using assms by (cases recs) auto
  then have "is_true (map Some recs)" by (cases rs) simp_all
  then show ?thesis by (simp add: aggregate_def where_object_map_Some)
qed

text \<open>
  C2. A host that gives no response leaves no object in the results (the thread job
  writes nothing for it), so the outcomes of a sweep in which no host responds are the
  empty results, and the report is the line "No snmp devices": for the sweep and for
  the whole scan, on either version of PowerShell. This report is not a table; the
  results of one or more records give a table of as many records, one record included.
\<close>

theorem no_response_empty_report:
  assumes "\<forall>i \<in> set hosts. probe run exe community oid timeout (host_address base i) = None"
    and "\<forall>i \<in> set hosts.
           probe (run_native env) SnmpExe Community OID Timeout (host_address base i) = None"
    and "resolve Network = Inr base" and "Get_Command env SnmpExe"
    and "7 \<le> PSVersion_Major env \<or> ThreadJob_listed env \<or> Install_Module_ok env"
  shows "fst (sweep_threadjob run base exe community oid timeout log) = []
    \<and> aggregate (fst (sweep_threadjob run base exe community oid timeout log)) = No_snmp_devices
    \<and> fst (SnmpScan env Network) = Inr No_snmp_devices
    \<and> No_snmp_devices \<noteq> Format_Table recs
    \<and> aggregate [Some r] = Format_Table [r]
    \<and> (recs \<noteq> [] \<longrightarrow> (\<exists>table. aggregate (map Some recs) = Format_Table table
          \<and> length table = length recs))"
proof -
  have e: "fst (sweep_threadjob run base exe community oid timeout log) = []"
    using assms(1) by (simp add: sweep_threadjob_out map_filter_all_None)
  then have a: "aggregate (fst (sweep_threadjob run base exe community oid timeout log)) =
      No_snmp_devices"
    by (simp only: aggregate_nothing)
  have s: "fst (SnmpScan env Network) = Inr No_snmp_devices"
  proof (cases "7 \<le> PSVersion_Major env")
    case True
    show ?thesis by (simp only: SnmpScan_ps7 [OF assms(3,4) True] fst_conv)
  next
    case False
    with assms(5) have m: "ThreadJob_listed env \<or> Install_Module_ok env" by simp
    have "List.map_filter (\<lambda>i. probe (run_native env) SnmpExe Community OID Timeout
        (host_address base i)) hosts = []"
      using assms(2) by (intro map_filter_all_None) simp
    then show ?thesis
      by (simp add: SnmpScan_ps5 [OF assms(3,4) False m] aggregate_nothing)
  qed
  have one: "aggregate [Some r] = Format_Table [r]"
    using aggregate_records [of "[r]"] by (simp add: Sort_Object_IP_def)
  have many: "recs \<noteq> [] \<longrightarrow> (\<exists>table. aggregate (map Some recs) = Format_Table table
          \<and> length table = length recs)"
    by (simp add: aggregate_records Sort_Object_IP_def)
  have d: "No_snmp_devices \<noteq> Format_Table recs"
    by simp
  show ?thesis
    by (intro conjI) (rule e a s d one many)+
qed

theorem no_response_empty_report_witness:
  "list_all (\<lambda>i. probe silent_tool ''snmpget'' ''admin'' ''.1.3'' 1 (host_address ''10.30.6'' i) = None)
     hosts
   \<and> resolve ''10.30.6.0/24'' = Inr ''10.30.6''
   \<and> Get_Command (ps5_env silent_tool) SnmpExe
   \<and> ThreadJob_listed (ps5_env silent_tool)
   \<and> fst (sweep_threadjob silent_tool ''10.30.6'' ''snmpget'' ''admin'' ''.1.3'' 1 []) = []
   \<and> fst (SnmpScan (ps5_env silent_tool) ''10.30.6.0/24'') = Inr No_snmp_devices
   \<and> fst (SnmpScan (ps7_env silent_tool) ''10.30.6.0/24'') = Inr No_snmp_devices
   \<and> aggregate [Some \<lparr>IP = ''10.30.6.5'', ProductName = ''DeviceA''\<rparr>] =
       Format_Table [\<lparr>IP = ''10.30.6.5'', ProductName = ''DeviceA''\<rparr>]"
proof -
  have h1: "\<forall>i \<in> set hosts.
      probe silent_tool ''snmpget'' ''admin'' ''.1.3'' 1 (host_address ''10.30.6'' i) = None"
    by (simp add: probe_silent)
  have h2: "\<forall>i \<in> set hosts. probe (run_native (ps5_env silent_tool)) SnmpExe Community OID Timeout
      (host_address ''10.30.6'' i) = None"
    by (simp add: ps5_env_def probe_silent)
  have g: "Get_Command (ps5_env silent_tool) SnmpExe"
    and j: "ThreadJob_listed (ps5_env silent_tool)"
    by (simp_all add: ps5_env_def SnmpExe_def)
  have m: "7 \<le> PSVersion_Major (ps5_env silent_tool) \<or> ThreadJob_listed (ps5_env silent_tool)
      \<or> Install_Module_ok (ps5_env silent_tool)"
    using j by simp
  note t = no_response_empty_report [OF h1 h2 resolve_example g m,
      of "[]" "[]" "\<lparr>IP = ''10.30.6.5'', ProductName = ''DeviceA''\<rparr>"]
  have h7: "\<forall>i \<in> set hosts. probe (run_native (ps7_env silent_tool)) SnmpExe Community OID Timeout
      (host_address ''10.30.6'' i) = None"
    by (simp add: ps7_env_def probe_silent)
  have g7: "Get_Command (ps7_env silent_tool) SnmpExe"
    and m7: "7 \<le> PSVersion_Major (ps7_env silent_tool) \<or> ThreadJob_listed (ps7_env silent_tool)
      \<or> Install_Module_ok (ps7_env silent_tool)"
    by (simp_all add: ps7_env_def SnmpExe_def)
  note t7 = no_response_empty_report [OF h1 h7 resolve_example g7 m7,
      of "[]" "[]" "\<lparr>IP = ''10.30.6.5'', ProductName = ''DeviceA''\<rparr>"]
  have l: "list_all (\<lambda>i. probe silent_tool ''snmpget'' ''admin'' ''.1.3'' 1
      (host_address ''10.30.6'' i) = None) hosts"
    using h1 by (simp only: list_all_iff)
  show ?thesis
    by (intro conjI)
      (rule l resolve_example g j t [THEN conjunct1]
        t [THEN conjunct2, THEN conjunct2, THEN conjunct1]
        t7 [THEN conjunct2, THEN conjunct2, THEN conjunct1]
        t [THEN conjunct2, THEN conjunct2, THEN conjunct2, THEN conjunct2, THEN conjunct1])+
qed

subsection \<open>One probe for each target\<close>

text \<open>
  C8, as the claim states it: a sweep would return 254 outcomes, each tagged with an
  address. Over a network where no host answers, the thread job strategy goes through
  the 254 targets and returns no object at all.
\<close>

theorem sweep_outcome_count_counterexample:
  "fst (sweep_threadjob silent_tool ''10.30.6'' SnmpExe Community OID Timeout []) = []
   \<and> length (snd (sweep_threadjob silent_tool ''10.30.6'' SnmpExe Community OID Timeout [])) = 254
   \<and> length hosts = 254"
proof (intro conjI)
  show "fst (sweep_threadjob silent_tool ''10.30.6'' SnmpExe Community OID Timeout []) = []"
    by (simp add: sweep_threadjob_out probe_silent map_filter_None)
  show "length (snd (sweep_threadjob silent_tool ''10.30.6'' SnmpExe Community OID Timeout [])) = 254"
    by (simp add: sweep_threadjob_log length_hosts)
  show "length hosts = 254"
    by (rule length_hosts)
qed

text \<open>
  C8, amended, for the thread job strategy. With the jobs taken one after the other in
  the order of dispatch, the sweep runs the tool exactly once for each of the 254
  pairwise distinct targets, on the vector of that target (the runs of the tool are the
  vectors of the targets, in order). It returns the records only: one for each target
  whose probe gave a value, in the order of the targets, and nothing for a target
  without response. Each record is tagged with the address of its target, so the
  addresses of the records are distinct and among the targets.
\<close>

theorem sweep_one_probe_per_target:
  "snd (sweep_threadjob run base exe community oid timeout []) =
     map (\<lambda>ip. (exe, snmp_args community timeout ip oid)) (map (host_address base) hosts)
   \<and> map (\<lambda>inv. snd inv ! 7) (snd (sweep_threadjob run base exe community oid timeout [])) =
     map (host_address base) hosts
   \<and> length (map (host_address base) hosts) = 254
   \<and> distinct (map (host_address base) hosts)
   \<and> fst (sweep_threadjob run base exe community oid timeout []) =
     map Some (List.map_filter (probe run exe community oid timeout)
                 (map (host_address base) hosts))
   \<and> map IP (where_object (fst (sweep_threadjob run base exe community oid timeout []))) =
     filter (\<lambda>ip. probe run exe community oid timeout ip \<noteq> None)
       (map (host_address base) hosts)
   \<and> distinct (map IP (where_object (fst (sweep_threadjob run base exe community oid timeout []))))
   \<and> set (map IP (where_object (fst (sweep_threadjob run base exe community oid timeout []))))
       \<subseteq> set (map (host_address base) hosts)"
proof -
  let ?ts = "map (host_address base) hosts"
  let ?p = "probe run exe community oid timeout"
  have job: "fst (sweep_threadjob run base exe community oid timeout []) =
      map Some (List.map_filter ?p ?ts)"
    by (simp add: sweep_threadjob_out map_filter_comp)
  have runs: "snd (sweep_threadjob run base exe community oid timeout []) =
      map (\<lambda>ip. (exe, snmp_args community timeout ip oid)) ?ts"
    by (simp add: sweep_threadjob_log comp_def)
  have jlog: "map (\<lambda>inv. snd inv ! 7) (snd (sweep_threadjob run base exe community oid timeout [])) = ?ts"
    by (simp add: sweep_threadjob_log comp_def snmp_args_def)
  have len: "length ?ts = 254"
    by (simp add: length_hosts)
  have dt: "distinct ?ts"
    by (rule distinct_targets)
  have wj: "where_object (fst (sweep_threadjob run base exe community oid timeout [])) =
      List.map_filter ?p ?ts"
    by (simp only: job where_object_map_Some)
  have ips: "map IP (where_object (fst (sweep_threadjob run base exe community oid timeout []))) =
      filter (\<lambda>ip. ?p ip \<noteq> None) ?ts"
    by (simp only: wj map_IP_map_filter_probe)
  have "distinct (filter (\<lambda>ip. ?p ip \<noteq> None) ?ts)"
    using dt by (rule distinct_filter)
  then have d: "distinct (map IP (where_object
      (fst (sweep_threadjob run base exe community oid timeout []))))"
    by (simp only: ips)
  have "set (filter (\<lambda>ip. ?p ip \<noteq> None) ?ts) \<subseteq> set ?ts"
    by (rule filter_is_subset)
  then have sub: "set (map IP (where_object
      (fst (sweep_threadjob run base exe community oid timeout [])))) \<subseteq> set ?ts"
    by (simp only: ips)
  show ?thesis
    by (intro conjI) (rule runs jlog len dt job ips d sub)+
qed

theorem sweep_one_probe_per_target_witness:
  "fst (sweep_threadjob failing_tool ''10.30.6'' ''snmpget'' ''admin'' ''.1'' 1 []) =
     map Some (List.map_filter (probe failing_tool ''snmpget'' ''admin'' ''.1'' 1)
                 (map (host_address ''10.30.6'') hosts))
   \<and> length (map (host_address ''10.30.6'') hosts) = 254
   \<and> distinct (map IP (where_object
        (fst (sweep_threadjob failing_tool ''10.30.6'' ''snmpget'' ''admin'' ''.1'' 1 []))))"
  using sweep_one_probe_per_target [of failing_tool "''10.30.6''" "''snmpget''" "''admin''" "''.1''" 1]
  by blast

subsection \<open>Searching a text\<close>

lemma starts_with_ci_iff:
  "starts_with_ci p s = Some r \<longleftrightarrow> (\<exists>mid. s = mid @ r \<and> map to_lower mid = map to_lower p)"
proof (induction p s rule: starts_with_ci.induct)
  case (1 s)
  then show ?case by auto
next
  case (2 p ps)
  then show ?case by auto
next
  case (3 p ps c cs)
  show ?case
  proof (cases "to_lower p = to_lower c")
    case True
    have "(\<exists>mid. c # cs = mid @ r \<and> map to_lower mid = map to_lower (p # ps)) \<longleftrightarrow>
          (\<exists>mid'. cs = mid' @ r \<and> map to_lower mid' = map to_lower ps)"
    proof
      assume "\<exists>mid. c # cs = mid @ r \<and> map to_lower mid = map to_lower (p # ps)"
      then obtain mid where m: "c # cs = mid @ r" "map to_lower mid = map to_lower (p # ps)" by blast
      then obtain m ms where "mid = m # ms" by (cases mid) auto
      with m show "\<exists>mid'. cs = mid' @ r \<and> map to_lower mid' = map to_lower ps" by auto
    next
      assume "\<exists>mid'. cs = mid' @ r \<and> map to_lower mid' = map to_lower ps"
      then obtain mid' where "cs = mid' @ r" "map to_lower mid' = map to_lower ps" by blast
      then have "c # cs = (c # mid') @ r \<and> map to_lower (c # mid') = map to_lower (p # ps)"
        using True by simp
      then show "\<exists>mid. c # cs = mid @ r \<and> map to_lower mid = map to_lower (p # ps)" by blast
    qed
    with 3 True show ?thesis by simp
  next
    case False
    have "\<not> (\<exists>mid. c # cs = mid @ r \<and> map to_lower mid = map to_lower (p # ps))"
    proof
      assume "\<exists>mid. c # cs = mid @ r \<and> map to_lower mid = map to_lower (p # ps)"
      then obtain mid where m: "c # cs = mid @ r" "map to_lower mid = map to_lower (p # ps)" by blast
      then obtain m ms where "mid = m # ms" by (cases mid) auto
      with m False show False by auto
    qed
    with False show ?thesis by simp
  qed
qed

lemma first_match_iff:
  "first_match m s \<noteq> None \<longleftrightarrow> (\<exists>pre post. s = pre @ post \<and> m post \<noteq> None)"
proof (induction s)
  case Nil
  then show ?case by simp
next
  case (Cons c cs)
  have "(\<exists>pre post. c # cs = pre @ post \<and> m post \<noteq> None) \<longleftrightarrow>
        m (c # cs) \<noteq> None \<or> (\<exists>pre post. cs = pre @ post \<and> m post \<noteq> None)"
  proof
    assume "\<exists>pre post. c # cs = pre @ post \<and> m post \<noteq> None"
    then obtain pre post where p: "c # cs = pre @ post" "m post \<noteq> None" by blast
    show "m (c # cs) \<noteq> None \<or> (\<exists>pre post. cs = pre @ post \<and> m post \<noteq> None)"
    proof (cases pre)
      case Nil
      with p show ?thesis by simp
    next
      case (Cons a pre')
      with p have "cs = pre' @ post" by simp
      with p(2) show ?thesis by blast
    qed
  next
    assume "m (c # cs) \<noteq> None \<or> (\<exists>pre post. cs = pre @ post \<and> m post \<noteq> None)"
    then show "\<exists>pre post. c # cs = pre @ post \<and> m post \<noteq> None"
    proof
      assume "m (c # cs) \<noteq> None"
      then have "c # cs = [] @ (c # cs) \<and> m (c # cs) \<noteq> None" by simp
      then show ?thesis by blast
    next
      assume "\<exists>pre post. cs = pre @ post \<and> m post \<noteq> None"
      then obtain pre post where "cs = pre @ post" "m post \<noteq> None" by blast
      then have "c # cs = (c # pre) @ post \<and> m post \<noteq> None" by simp
      then show ?thesis by blast
    qed
  qed
  with Cons show ?case by (simp split: option.splits)
qed

lemma starts_with_ci_append:
  "map to_lower mid = map to_lower word \<Longrightarrow> starts_with_ci word (mid @ post) = Some post"
  using starts_with_ci_iff [of word "mid @ post" post] by blast

lemma starts_with_ci_split:
  "starts_with_ci word s = Some r \<Longrightarrow> \<exists>mid. s = mid @ r \<and> map to_lower mid = map to_lower word"
  using starts_with_ci_iff [of word s r] by blast

lemma contains_any_case_iff:
  "contains_any_case word s \<longleftrightarrow> (\<exists>pre post. s = pre @ post \<and> starts_with_ci word post \<noteq> None)"
proof
  assume "contains_any_case word s"
  then obtain pre mid post where s: "s = pre @ mid @ post" and m: "map to_lower mid = map to_lower word"
    unfolding contains_any_case_def by blast
  have "starts_with_ci word (mid @ post) \<noteq> None"
    using starts_with_ci_append [OF m, of post] by simp
  with s show "\<exists>pre post. s = pre @ post \<and> starts_with_ci word post \<noteq> None"
    by blast
next
  assume "\<exists>pre post. s = pre @ post \<and> starts_with_ci word post \<noteq> None"
  then obtain pre post r where s: "s = pre @ post" and "starts_with_ci word post = Some r" by auto
  then obtain mid where "post = mid @ r" "map to_lower mid = map to_lower word"
    using starts_with_ci_split by blast
  with s show "contains_any_case word s"
    unfolding contains_any_case_def by blast
qed

lemma negative_here_iff:
  "negative_here s \<noteq> None \<longleftrightarrow>
     starts_with_ci ''Timeout'' s \<noteq> None \<or> starts_with_ci ''No Such Object'' s \<noteq> None"
  unfolding negative_here_def by (simp split: option.splits)

lemma negative_match_iff:
  "negative_match s \<longleftrightarrow>
     contains_any_case ''Timeout'' s \<or> contains_any_case ''No Such Object'' s"
  unfolding negative_match_def first_match_iff contains_any_case_iff negative_here_iff
  by blast

subsection \<open>The outcome of a probe\<close>

text \<open>
  C10. An output that contains "Timeout" or "No Such Object" anywhere, in any letter
  case, matches the negative pattern; the probe then returns \<^verbatim>\<open>$null\<close> and the thread
  job writes nothing, whatever else the output holds (a \<^verbatim>\<open>STRING:\<close> value included), so
  no record of it reaches the report.
\<close>

theorem negative_marker_any_case:
  assumes "contains_any_case ''Timeout'' output \<or> contains_any_case ''No Such Object'' output"
    and "run exe (snmp_args community timeout ip oid) = Exited status output"
  shows "negative_match output
    \<and> probe run exe community oid timeout ip = None
    \<and> fst (Invoke_SnmpCheck run ip exe community oid timeout log) = None
    \<and> fst (thread_job run ip exe community oid timeout log) = []"
proof -
  have n: "negative_match output"
    using assms(1) by (simp only: negative_match_iff)
  then have p: "probe run exe community oid timeout ip = None"
    using assms(2) by (simp add: probe_classify classify_def)
  then show ?thesis
    using n by (simp add: Invoke_SnmpCheck_out thread_job_out)
qed

theorem negative_marker_any_case_witness:
  "contains_any_case ''Timeout'' (''STRING: '' @ [DQUOTE] @ ''Model X'' @ [DQUOTE] @ '' (TIMEOUT)'')
   \<and> marker_tool ''snmpget'' (snmp_args ''admin'' 1 ''10.30.6.9'' ''.1.3'') =
       Exited 0 (''STRING: '' @ [DQUOTE] @ ''Model X'' @ [DQUOTE] @ '' (TIMEOUT)'')
   \<and> probe marker_tool ''snmpget'' ''admin'' ''.1.3'' 1 ''10.30.6.9'' = None
   \<and> fst (thread_job marker_tool ''10.30.6.9'' ''snmpget'' ''admin'' ''.1.3'' 1 []) = []
   \<and> extract_value (''STRING: '' @ [DQUOTE] @ ''Model X'' @ [DQUOTE] @ '' (TIMEOUT)'') = ''Model X''"
proof -
  let ?out = "''STRING: '' @ [DQUOTE] @ ''Model X'' @ [DQUOTE] @ '' (TIMEOUT)''"
  have "?out = (''STRING: '' @ [DQUOTE] @ ''Model X'' @ [DQUOTE] @ '' ('') @ ''TIMEOUT'' @ '')''"
    by simp
  moreover have "map to_lower ''TIMEOUT'' = map to_lower ''Timeout''"
    by (simp add: to_lower_def)
  ultimately have c: "contains_any_case ''Timeout'' ?out"
    unfolding contains_any_case_def by blast
  have t: "marker_tool ''snmpget'' (snmp_args ''admin'' 1 ''10.30.6.9'' ''.1.3'') = Exited 0 ?out"
    by (simp add: marker_tool_def)
  have e: "extract_value ?out = ''Model X''"
    by code_simp
  have h: "contains_any_case ''Timeout'' ?out \<or> contains_any_case ''No Such Object'' ?out"
    using c by (rule disjI1)
  from negative_marker_any_case [of ?out marker_tool "''snmpget''" "''admin''" 1 "''10.30.6.9''"
      "''.1.3''" 0 "[]", OF h t] c t e
  show ?thesis
    by blast
qed

text \<open>
  C5, as the claim states it: a run of the tool that ends with a non-zero exit status
  would give no response. The probe never looks at the exit status: a tool that fails
  with status 1 after writing a line gives a record whose value is that line.
\<close>

theorem probe_nonzero_exit_counterexample:
  "failing_tool ''snmpget'' (snmp_args ''admin'' 1 ''10.30.6.9'' ''.1.3'') =
     Exited 1 ''usage: snmpget [OPTIONS] AGENT OID''
   \<and> probe failing_tool ''snmpget'' ''admin'' ''.1.3'' 1 ''10.30.6.9'' =
     Some \<lparr>IP = ''10.30.6.9'', ProductName = ''usage: snmpget [OPTIONS] AGENT OID''\<rparr>"
  by code_simp

text \<open>
  C5, amended. The probe always returns: a launch failure, an empty output and an output
  that contains a negative marker (in any letter case) give no response; every other
  output gives the record of the target with the extracted value, whatever the exit
  status of the tool.
\<close>

theorem probe_outcome:
  "probe run exe community oid timeout ip =
     (case run exe (snmp_args community timeout ip oid) of
        LaunchFailed \<Rightarrow> None
      | Exited status output \<Rightarrow>
          if output = [] \<or> contains_any_case ''Timeout'' output
               \<or> contains_any_case ''No Such Object'' output
          then None
          else Some \<lparr>IP = ip, ProductName = extract_value output\<rparr>)"
  by (simp add: probe_classify classify_def negative_match_iff split: tool_result.splits)

theorem probe_outcome_witness:
  "probe silent_tool ''snmpget'' ''admin'' ''.1.3'' 1 ''10.30.6.9'' = None"
  using probe_outcome [of silent_tool "''snmpget''" "''admin''" "''.1.3''" 1 "''10.30.6.9''"]
  by (simp add: silent_tool_def)

subsection \<open>Value extraction\<close>

lemma dropWhile_id:
  assumes "\<And>c. c \<in> set xs \<Longrightarrow> \<not> P c"
  shows "dropWhile P xs = xs"
  using assms by (cases xs) auto

lemma Trim_chars_id:
  assumes "\<And>c. c \<in> set v \<Longrightarrow> \<not> P c"
  shows "Trim_chars P v = v"
proof -
  have a: "dropWhile P v = v"
    using assms by (rule dropWhile_id)
  have "dropWhile P (rev v) = rev v"
    using assms by (intro dropWhile_id) simp
  then show ?thesis by (simp add: Trim_chars_def a)
qed

lemma starts_with_ci_set:
  assumes "starts_with_ci p s = Some r"
  shows "set r \<subseteq> set s"
proof -
  from starts_with_ci_split [OF assms] obtain mid where "s = mid @ r" by blast
  then show ?thesis by auto
qed

lemma quoted_here_needs_quote:
  assumes "DQUOTE \<notin> set s"
  shows "quoted_here s = None"
proof (cases "starts_with_ci ''STRING:'' s")
  case None
  then show ?thesis by (simp only: quoted_here_def option.case)
next
  case (Some r)
  have "set (dropWhile is_space r) \<subseteq> set r"
    by (auto dest: set_dropWhileD)
  then have sub: "set (dropWhile is_space r) \<subseteq> set s"
    using starts_with_ci_set [OF Some] by blast
  show ?thesis
  proof (cases "dropWhile is_space r")
    case Nil
    show ?thesis by (simp only: quoted_here_def Some Nil option.case list.case)
  next
    case (Cons q t)
    with sub assms have "q \<noteq> DQUOTE" by auto
    then show ?thesis by (simp only: quoted_here_def Some Cons option.case list.case if_True not_False_eq_True)
  qed
qed


lemma first_match_None:
  assumes "\<And>pre post. s = pre @ post \<Longrightarrow> m post = None"
  shows "first_match m s = None"
proof (rule ccontr)
  assume "first_match m s \<noteq> None"
  then have "\<exists>pre post. s = pre @ post \<and> m post \<noteq> None"
    by (simp only: first_match_iff)
  then obtain pre post where "s = pre @ post" and "m post \<noteq> None"
    by blast
  then show False
    using assms [of pre post] by simp
qed

lemma first_match_quoted_no_quote:
  assumes "DQUOTE \<notin> set s"
  shows "first_match quoted_here s = None"
proof (rule first_match_None)
  fix pre post
  assume "s = pre @ post"
  with assms have "DQUOTE \<notin> set post" by auto
  then show "quoted_here post = None" by (rule quoted_here_needs_quote)
qed

lemma not_contains_suffix:
  assumes "\<not> contains_any_case word s" and "s = pre @ post"
  shows "starts_with_ci word post = None"
proof (rule ccontr)
  assume "starts_with_ci word post \<noteq> None"
  with assms(2) have "\<exists>pre post. s = pre @ post \<and> starts_with_ci word post \<noteq> None"
    by blast
  then have "contains_any_case word s"
    by (simp only: contains_any_case_iff)
  with assms(1) show False by simp
qed

lemma no_marker_no_match:
  assumes "\<not> contains_any_case ''STRING:'' s"
  shows "first_match quoted_here s = None" and "first_match token_here s = None"
proof -
  show "first_match quoted_here s = None"
  proof (rule first_match_None)
    fix pre post
    assume "s = pre @ post"
    with assms have "starts_with_ci ''STRING:'' post = None" by (rule not_contains_suffix)
    then show "quoted_here post = None" by (simp only: quoted_here_def option.case)
  qed
  show "first_match token_here s = None"
  proof (rule first_match_None)
    fix pre post
    assume "s = pre @ post"
    with assms have "starts_with_ci ''STRING:'' post = None" by (rule not_contains_suffix)
    then show "token_here post = None" by (simp only: token_here_def option.case)
  qed
qed

lemma fallback_value:
  assumes "\<not> contains_any_case ''STRING:'' raw"
  shows "extract_value raw = Trim raw"
  using no_marker_no_match [OF assms] by (simp only: extract_value_def option.case)

lemma to_lower_marker: "map to_lower ''STRING:'' = ''string:''"
  by (simp add: to_lower_def)

lemma marker_prefix: "starts_with_ci ''STRING:'' (''STRING:'' @ rest) = Some rest"
  by (rule starts_with_ci_append) simp

lemma space_is_space: "is_space CHR '' ''" and quote_not_space: "\<not> is_space DQUOTE"
  by (simp_all add: is_space_def)

lemma last_quote: "rev (tl (dropWhile (\<lambda>c. c \<noteq> DQUOTE) (rev (v @ [DQUOTE])))) = v"
  by simp

lemma quoted_here_value:
  assumes "LF \<notin> set v"
  shows "quoted_here (''STRING:'' @ CHR '' '' # DQUOTE # v @ [DQUOTE]) = Some v"
proof -
  have line: "takeWhile (\<lambda>c. c \<noteq> LF) (v @ [DQUOTE]) = v @ [DQUOTE]"
    using assms by (auto simp add: takeWhile_eq_all_conv)
  have d: "dropWhile is_space (CHR '' '' # DQUOTE # v @ [DQUOTE]) = DQUOTE # v @ [DQUOTE]"
    by (simp add: space_is_space quote_not_space)
  show ?thesis
    by (simp only: quoted_here_def marker_prefix option.case d list.case Let_def line last_quote)
      simp
qed


lemma first_match_here:
  assumes "m s = Some g"
  shows "first_match m s = Some g"
  using assms by (cases s) simp_all

lemma quoted_value:
  assumes "LF \<notin> set v"
  shows "extract_value (''STRING: '' @ [DQUOTE] @ v @ [DQUOTE]) = Trim v"
proof -
  have s: "''STRING: '' @ [DQUOTE] @ v @ [DQUOTE] = ''STRING:'' @ CHR '' '' # DQUOTE # v @ [DQUOTE]"
    by simp
  have "first_match quoted_here (''STRING:'' @ CHR '' '' # DQUOTE # v @ [DQUOTE]) = Some v"
    using quoted_here_value [OF assms] by (rule first_match_here)
  then show ?thesis
    by (simp only: s extract_value_def option.case)
qed

lemma token_here_value:
  assumes "v \<noteq> []" and "\<And>c. c \<in> set v \<Longrightarrow> \<not> is_space c"
  shows "token_here (''STRING:'' @ CHR '' '' # v @ '' '') = Some v"
proof -
  obtain c t where v: "v = c # t" using assms(1) by (cases v) auto
  have c: "\<not> is_space c" using assms(2) v by simp
  have tw: "takeWhile (\<lambda>x. \<not> is_space x) (v @ '' '') = v"
    using assms(2) by (simp add: takeWhile_append2 space_is_space)
  have d: "dropWhile is_space (CHR '' '' # v @ '' '') = c # t @ '' ''"
    using c by (simp add: v space_is_space)
  have "token_here (''STRING:'' @ CHR '' '' # v @ '' '') =
      Some (takeWhile (\<lambda>x. \<not> is_space x) (c # t @ '' ''))"
    by (simp only: token_here_def marker_prefix option.case d list.case)
  also have "c # t @ '' '' = v @ '' ''" by (simp add: v)
  finally show ?thesis by (simp only: tw)
qed

lemma token_value:
  assumes "v \<noteq> []" and "\<And>c. c \<in> set v \<Longrightarrow> \<not> is_space c" and "DQUOTE \<notin> set v"
  shows "extract_value (''STRING: '' @ v @ '' '') = v"
proof -
  have s: "''STRING: '' @ v @ '' '' = ''STRING:'' @ CHR '' '' # v @ '' ''"
    by simp
  have "DQUOTE \<notin> set (''STRING: '' @ v @ '' '')"
    using assms(3) by simp
  then have q: "first_match quoted_here (''STRING:'' @ CHR '' '' # v @ '' '') = None"
    unfolding s by (rule first_match_quoted_no_quote)
  have t: "first_match token_here (''STRING:'' @ CHR '' '' # v @ '' '') = Some v"
    using token_here_value [OF assms(1,2)] by (rule first_match_here)
  have "Trim_chars (\<lambda>c. c = DQUOTE) v = v"
    using assms(3) by (intro Trim_chars_id) auto
  moreover have "Trim v = v"
    unfolding Trim_def using assms(2) by (intro Trim_chars_id) auto
  ultimately show ?thesis
    by (simp only: s extract_value_def q t option.case)
qed

lemma contains_first_match:
  "contains_any_case word s \<longleftrightarrow> first_match (starts_with_ci word) s \<noteq> None"
  by (simp only: contains_any_case_iff first_match_iff)

text \<open>
  C4. The extraction is a total function from strings to strings. The first pattern that
  matches decides: a quoted segment after the marker gives the quoted content, trimmed;
  otherwise a token after the marker gives the token, with double quotes and then white
  space trimmed from its ends; otherwise the whole input is trimmed. In particular a
  quoted value without line feed is returned trimmed, a token without white space and
  double quote is returned as it is, an input without the marker is returned trimmed,
  and the three examples and the empty string come out as stated.
\<close>

theorem extract_value_priority:
  "(first_match quoted_here raw = Some g \<longrightarrow> extract_value raw = Trim g)
   \<and> (first_match quoted_here raw = None \<and> first_match token_here raw = Some g \<longrightarrow>
        extract_value raw = Trim (Trim_chars (\<lambda>c. c = DQUOTE) g))
   \<and> (first_match quoted_here raw = None \<and> first_match token_here raw = None \<longrightarrow>
        extract_value raw = Trim raw)
   \<and> (LF \<notin> set v \<longrightarrow> extract_value (''STRING: '' @ [DQUOTE] @ v @ [DQUOTE]) = Trim v)
   \<and> (w \<noteq> [] \<and> list_all (\<lambda>c. \<not> is_space c) w \<and> DQUOTE \<notin> set w \<longrightarrow>
        extract_value (''STRING: '' @ w @ '' '') = w)
   \<and> (\<not> contains_any_case ''STRING:'' raw \<longrightarrow> extract_value raw = Trim raw)
   \<and> extract_value (''STRING: '' @ [DQUOTE] @ ''Model X'' @ [DQUOTE]) = ''Model X''
   \<and> extract_value ''STRING: ModelX '' = ''ModelX''
   \<and> extract_value ''garbage text'' = ''garbage text''
   \<and> extract_value [] = []"
proof (intro conjI impI)
  show "extract_value raw = Trim g" if "first_match quoted_here raw = Some g"
    using that by (simp only: extract_value_def option.case)
  show "extract_value raw = Trim (Trim_chars (\<lambda>c. c = DQUOTE) g)"
    if "first_match quoted_here raw = None \<and> first_match token_here raw = Some g"
    using that by (simp only: extract_value_def option.case)
  show "extract_value raw = Trim raw"
    if "first_match quoted_here raw = None \<and> first_match token_here raw = None"
    using that by (simp only: extract_value_def option.case)
  show "extract_value (''STRING: '' @ [DQUOTE] @ v @ [DQUOTE]) = Trim v" if "LF \<notin> set v"
    using that by (rule quoted_value)
  show "extract_value (''STRING: '' @ w @ '' '') = w"
    if "w \<noteq> [] \<and> list_all (\<lambda>c. \<not> is_space c) w \<and> DQUOTE \<notin> set w"
    using that by (intro token_value) (simp_all add: list_all_iff)
  show "extract_value raw = Trim raw" if "\<not> contains_any_case ''STRING:'' raw"
    using that by (rule fallback_value)
  show "extract_value (''STRING: '' @ [DQUOTE] @ ''Model X'' @ [DQUOTE]) = ''Model X''"
    by code_simp
  show "extract_value ''STRING: ModelX '' = ''ModelX''"
    by code_simp
  show "extract_value ''garbage text'' = ''garbage text''"
    by code_simp
  show "extract_value [] = []"
    by code_simp
qed

theorem extract_value_priority_witness:
  "LF \<notin> set ''Model  X ''
   \<and> extract_value (''STRING: '' @ [DQUOTE] @ ''Model  X '' @ [DQUOTE]) = ''Model  X''
   \<and> list_all (\<lambda>c. \<not> is_space c) ''a-b''
   \<and> extract_value ''STRING: a-b '' = ''a-b''
   \<and> \<not> contains_any_case ''STRING:'' ''  no marker here ''
   \<and> extract_value ''  no marker here '' = ''no marker here''
   \<and> first_match quoted_here ''x string:   y'' = None
   \<and> first_match token_here ''x string:   y'' = Some ''y''
   \<and> extract_value ''x string:   y'' = ''y''"
proof -
  have h1: "LF \<notin> set ''Model  X ''"
    by simp
  have t1: "Trim ''Model  X '' = ''Model  X''"
    by code_simp
  have h2: "''a-b'' \<noteq> [] \<and> list_all (\<lambda>c. \<not> is_space c) ''a-b'' \<and> DQUOTE \<notin> set ''a-b''"
    by (simp add: is_space_def)
  have "first_match (starts_with_ci ''STRING:'') ''  no marker here '' = None"
    by code_simp
  then have h3: "\<not> contains_any_case ''STRING:'' ''  no marker here ''"
    by (simp add: contains_first_match)
  have t3: "Trim ''  no marker here '' = ''no marker here''"
    by code_simp
  have h4: "first_match quoted_here ''x string:   y'' = None \<and>
      first_match token_here ''x string:   y'' = Some ''y''"
    by code_simp
  have t4: "Trim (Trim_chars (\<lambda>c. c = DQUOTE) ''y'') = ''y''"
    by code_simp
  note thm1 = extract_value_priority [of "''x string:   y''" "''y''" "''Model  X ''" "''a-b''"]
  note thm3 = extract_value_priority [of "''  no marker here ''" "''y''" "''Model  X ''" "''a-b''"]
  have e1: "extract_value (''STRING: '' @ [DQUOTE] @ ''Model  X '' @ [DQUOTE]) = ''Model  X''"
    using thm1 h1 t1 by simp
  have e2: "extract_value ''STRING: a-b '' = ''a-b''"
    using thm1 h2 by simp
  have e3: "extract_value ''  no marker here '' = ''no marker here''"
    using thm3 h3 t3 by simp
  have e4: "extract_value ''x string:   y'' = ''y''"
    using thm1 h4 t4 by simp
  from h1 e1 h2 e2 h3 e3 h4 e4 show ?thesis
    by blast
qed

subsection \<open>The network argument\<close>

lemma number_digits: "number a \<Longrightarrow> c \<in> set a \<Longrightarrow> is_digit c"
  by (simp add: number_def list_all_iff)

lemma digits1_number:
  assumes "number a" and "\<not> is_digit c"
  shows "digits1 (a @ c # r) = Some (c # r)"
proof -
  have t: "takeWhile is_digit (a @ c # r) = a"
    using assms number_digits [OF assms(1)] by (simp add: takeWhile_append2)
  have d: "dropWhile is_digit (a @ c # r) = c # r"
    using assms number_digits [OF assms(1)] by (simp add: dropWhile_append2)
  have "a \<noteq> []" using assms(1) by (simp add: number_def)
  then show ?thesis by (simp add: digits1_def t d)
qed

lemma digits1_number_end:
  assumes "number a"
  shows "digits1 a = Some []"
proof -
  have all: "\<forall>x\<in>set a. is_digit x"
    using number_digits [OF assms] by blast
  then have t: "takeWhile is_digit a = a"
    by (simp only: takeWhile_eq_all_conv)
  have d: "dropWhile is_digit a = []"
    using all by simp
  have "a \<noteq> []" using assms by (simp add: number_def)
  then show ?thesis by (simp add: digits1_def t d)
qed

lemma not_digit: "\<not> is_digit CHR ''.''" "\<not> is_digit CHR ''/''" "\<not> is_digit LF"
  by (simp_all add: is_digit_def)

lemma lit_Cons: "lit c (c # r) = Some r"
  by (simp add: lit_def)

lemma lit_Nil: "lit c [] = None"
  by (simp add: lit_def)

lemma quad_prefix:
  assumes "number a" "number b" "number c"
  shows "Option.bind (Option.bind (Option.bind (Option.bind (Option.bind (Option.bind
             (digits1 (a @ CHR ''.'' # b @ CHR ''.'' # c @ CHR ''.'' # rest)) (lit CHR ''.'')) digits1) (lit CHR ''.'')) digits1) (lit CHR ''.''))
             digits1 = digits1 rest"
  using assms by (simp add: digits1_number not_digit lit_Cons)

lemma network_format_quad:
  assumes "number a" "number b" "number c" "number d"
  shows "network_format (dotted_quad a b c d)"
proof -
  have s: "dotted_quad a b c d = a @ CHR ''.'' # b @ CHR ''.'' # c @ CHR ''.'' # d"
    by (simp add: dotted_quad_def)
  show ?thesis
    unfolding network_format_def s quad_prefix [OF assms(1-3)] digits1_number_end [OF assms(4)]
    by (simp add: lit_Nil at_end_def)
qed

lemma network_format_mask:
  assumes "number a" "number b" "number c" "number d" "number m"
  shows "network_format (dotted_quad a b c d @ ''/'' @ m)"
proof -
  have s: "dotted_quad a b c d @ ''/'' @ m = a @ CHR ''.'' # b @ CHR ''.'' # c @ CHR ''.'' # (d @ CHR ''/'' # m)"
    by (simp add: dotted_quad_def)
  have d: "digits1 (d @ CHR ''/'' # m) = Some (CHR ''/'' # m)"
    using assms(4) not_digit(2) by (rule digits1_number)
  show ?thesis
    unfolding network_format_def s quad_prefix [OF assms(1-3)] d
    by (simp add: lit_Cons digits1_number_end [OF assms(5)] at_end_def)
qed

lemma length_dropWhile_suffix:
  assumes "\<not> P y"
  shows "Suc (length ys) \<le> length (dropWhile P (xs @ y # ys))"
  using assms by (induction xs) auto

lemma replace_last_octet_end:
  assumes "number d"
  shows "replace_last_octet (xs @ CHR ''.'' # d) = xs"
proof (induction xs)
  case Nil
  show ?case
    using digits1_number_end [OF assms] number_digits [OF assms]
    by (simp add: at_end_def)
next
  case (Cons x xs)
  have len: "2 \<le> length (dropWhile is_digit (xs @ CHR ''.'' # d))"
  proof -
    have "d \<noteq> []" using assms by (simp add: number_def)
    then have "1 \<le> length d" by (cases d) auto
    moreover have "Suc (length d) \<le> length (dropWhile is_digit (xs @ CHR ''.'' # d))"
      using not_digit(1) by (rule length_dropWhile_suffix)
    ultimately show ?thesis by simp
  qed
  have "\<not> (case digits1 (xs @ CHR ''.'' # d) of Some r \<Rightarrow> at_end r | None \<Rightarrow> False)"
  proof (cases "digits1 (xs @ CHR ''.'' # d)")
    case None
    then show ?thesis by simp
  next
    case (Some r)
    then have "r = dropWhile is_digit (xs @ CHR ''.'' # d)"
      by (simp add: digits1_def split: if_splits)
    with len have "2 \<le> length r" by simp
    then have "\<not> at_end r" by (auto simp: at_end_def)
    with Some show ?thesis by simp
  qed
  then show ?case using Cons.IH by simp
qed

lemma number_no_slash: "number a \<Longrightarrow> CHR ''/'' \<notin> set a"
  using number_digits not_digit(2) by blast

lemma split_slash_quad:
  assumes "number a" "number b" "number c" "number d"
  shows "split_slash_0 (dotted_quad a b c d) = dotted_quad a b c d"
    and "split_slash_0 (dotted_quad a b c d @ ''/'' @ m) = dotted_quad a b c d"
proof -
  have n: "\<And>x. x \<in> set (dotted_quad a b c d) \<Longrightarrow> x \<noteq> CHR ''/''"
    using assms [THEN number_no_slash] by (auto simp: dotted_quad_def)
  show "split_slash_0 (dotted_quad a b c d) = dotted_quad a b c d"
    unfolding split_slash_0_def using n by (simp add: takeWhile_eq_all_conv)
  show "split_slash_0 (dotted_quad a b c d @ ''/'' @ m) = dotted_quad a b c d"
    unfolding split_slash_0_def using n by (simp add: takeWhile_append2)
qed

lemma replace_quad:
  assumes "number d"
  shows "replace_last_octet (dotted_quad a b c d) = a @ ''.'' @ b @ ''.'' @ c"
proof -
  have "dotted_quad a b c d = (a @ ''.'' @ b @ ''.'' @ c) @ CHR ''.'' # d"
    by (simp add: dotted_quad_def)
  then show ?thesis by (simp only: replace_last_octet_end [OF assms])
qed

lemma resolve_quad:
  assumes "number a" "number b" "number c" "number d"
  shows "resolve (dotted_quad a b c d) = Inr (a @ ''.'' @ b @ ''.'' @ c)"
  by (simp only: resolve_def network_format_quad [OF assms] if_True
      split_slash_quad(1) [OF assms] replace_quad [OF assms(4)])

lemma resolve_mask:
  assumes "number a" "number b" "number c" "number d" "number m"
  shows "resolve (dotted_quad a b c d @ ''/'' @ m) = Inr (a @ ''.'' @ b @ ''.'' @ c)"
  by (simp only: resolve_def network_format_mask [OF assms] if_True
      split_slash_quad(2) [OF assms(1-4)] replace_quad [OF assms(4)])

lemma digits1_Some:
  assumes "digits1 s = Some r"
  shows "\<exists>a. number a \<and> s = a @ r"
proof -
  have ne: "takeWhile is_digit s \<noteq> []" and r: "r = dropWhile is_digit s"
    using assms by (simp_all add: digits1_def split: if_splits)
  have "list_all is_digit (takeWhile is_digit s)"
    by (auto simp: list_all_iff dest: set_takeWhileD)
  with ne have "number (takeWhile is_digit s)"
    by (simp add: number_def)
  moreover have "s = takeWhile is_digit s @ r"
    by (simp add: r)
  ultimately show ?thesis by blast
qed

lemma lit_Some: "lit c s = Some r \<Longrightarrow> s = c # r"
  by (cases s) (auto simp: lit_def split: if_splits)

lemma quad_prefix_Some:
  assumes "Option.bind (Option.bind (Option.bind (Option.bind (Option.bind (Option.bind
             (digits1 s) (lit CHR ''.'')) digits1) (lit CHR ''.'')) digits1) (lit CHR ''.''))
             digits1 = Some r"
  shows "\<exists>a b c d. number a \<and> number b \<and> number c \<and> number d \<and> s = dotted_quad a b c d @ r"
proof -
  from assms obtain r1 r2 r3 r4 r5 r6 where
    1: "digits1 s = Some r1" and 2: "lit CHR ''.'' r1 = Some r2" and
    3: "digits1 r2 = Some r3" and 4: "lit CHR ''.'' r3 = Some r4" and
    5: "digits1 r4 = Some r5" and 6: "lit CHR ''.'' r5 = Some r6" and
    7: "digits1 r6 = Some r"
    by (auto simp: bind_eq_Some_conv)
  from digits1_Some [OF 1] obtain a where a: "number a" "s = a @ r1" by blast
  from digits1_Some [OF 3] obtain b where b: "number b" "r2 = b @ r3" by blast
  from digits1_Some [OF 5] obtain c where c: "number c" "r4 = c @ r5" by blast
  from digits1_Some [OF 7] obtain d where d: "number d" "r6 = d @ r" by blast
  have "s = dotted_quad a b c d @ r"
    using a(2) b(2) c(2) d(2) lit_Some [OF 2] lit_Some [OF 4] lit_Some [OF 6]
    by (simp add: dotted_quad_def)
  with a(1) b(1) c(1) d(1) show ?thesis by blast
qed

lemma network_format_shape:
  assumes "network_format s"
  shows "\<exists>a b c d. number a \<and> number b \<and> number c \<and> number d \<and>
           (s = dotted_quad a b c d \<or> s = dotted_quad a b c d @ [LF] \<or>
            (\<exists>m. number m \<and> (s = dotted_quad a b c d @ ''/'' @ m \<or>
                               s = dotted_quad a b c d @ ''/'' @ m @ [LF])))"
proof -
  from assms obtain r where
    p: "Option.bind (Option.bind (Option.bind (Option.bind (Option.bind (Option.bind
             (digits1 s) (lit CHR ''.'')) digits1) (lit CHR ''.'')) digits1) (lit CHR ''.''))
             digits1 = Some r"
    and e: "(case Option.bind (lit CHR ''/'' r) digits1 of
             Some r' \<Rightarrow> at_end r' \<or> at_end r
           | None \<Rightarrow> at_end r)"
    unfolding network_format_def by (auto split: option.splits)
  from quad_prefix_Some [OF p] obtain a b c d where
    n: "number a" "number b" "number c" "number d" and s: "s = dotted_quad a b c d @ r"
    by blast
  show ?thesis
  proof (cases "at_end r")
    case True
    then have "s = dotted_quad a b c d \<or> s = dotted_quad a b c d @ [LF]"
      using s by (auto simp: at_end_def)
    with n show ?thesis by blast
  next
    case False
    with e obtain r' where b: "Option.bind (lit CHR ''/'' r) digits1 = Some r'" and e': "at_end r'"
      by (auto split: option.splits)
    from b obtain r1 where l: "lit CHR ''/'' r = Some r1" and dg: "digits1 r1 = Some r'"
      by (auto simp: bind_eq_Some_conv)
    from digits1_Some [OF dg] obtain m where m: "number m" "r1 = m @ r'" by blast
    have "r = ''/'' @ m @ r'"
      using lit_Some [OF l] m(2) by simp
    with s e' have "s = dotted_quad a b c d @ ''/'' @ m \<or> s = dotted_quad a b c d @ ''/'' @ m @ [LF]"
      by (auto simp: at_end_def)
    with n m(1) show ?thesis by blast
  qed
qed

lemma invalid_spec_no_probe:
  assumes "\<not> network_format Network"
  shows "SnmpScan env Network = (Inl InvalidSpec, [])"
  using assms by (simp add: SnmpScan_def resolve_def)

lemma network_format_accepts:
  assumes "network_format s"
  shows "network_spec_shape s \<or> (\<exists>t. s = t @ [LF] \<and> network_spec_shape t)"
proof -
  from network_format_shape [OF assms] obtain a b c d where
    n: "number a" "number b" "number c" "number d" and
    s: "s = dotted_quad a b c d \<or> s = dotted_quad a b c d @ [LF] \<or>
        (\<exists>m. number m \<and> (s = dotted_quad a b c d @ ''/'' @ m \<or>
                           s = dotted_quad a b c d @ ''/'' @ m @ [LF]))"
    by blast
  have q: "network_spec_shape (dotted_quad a b c d)"
    unfolding network_spec_shape_def using n by blast
  have m: "network_spec_shape (dotted_quad a b c d @ ''/'' @ m)" if "number m" for m
    unfolding network_spec_shape_def using n that by blast
  from s consider "s = dotted_quad a b c d" | "s = dotted_quad a b c d @ [LF]"
    | m where "number m" "s = dotted_quad a b c d @ ''/'' @ m"
    | m where "number m" "s = (dotted_quad a b c d @ ''/'' @ m) @ [LF]"
    by auto
  then show ?thesis
  proof cases
    case 1
    with q show ?thesis by simp
  next
    case 2
    with q show ?thesis by blast
  next
    case 3
    with m show ?thesis by simp
  next
    case 4
    with m show ?thesis by blast
  qed
qed

text \<open>A string that has not the shape, and not the shape followed by one line feed,
  stops the script before anything is run.\<close>

lemma invalid_spec_rejected:
  assumes "\<not> network_spec_shape s" and "\<And>t. s = t @ [LF] \<Longrightarrow> \<not> network_spec_shape t"
  shows "resolve s = Inl InvalidSpec" and "SnmpScan env s = (Inl InvalidSpec, [])"
proof -
  have "\<not> network_format s"
    using assms network_format_accepts [of s] by blast
  then show "resolve s = Inl InvalidSpec" and "SnmpScan env s = (Inl InvalidSpec, [])"
    by (simp_all add: invalid_spec_no_probe resolve_def)
qed

text \<open>
  C6. A string without the shape is to be refused before any probe. The pattern ends in
  \<^verbatim>\<open>$\<close>, which also matches in front of a final line feed: the address followed by a
  line feed has not the shape, is accepted and gives a base that ends in the line feed;
  on the thread job path the scan then runs the tool 254 times, first on the address
  made of that base. Other strings without the shape are refused with no run.
\<close>

theorem trailing_line_feed_accepted:
  "resolve (''10.30.6.0'' @ [LF]) = Inr (''10.30.6'' @ [LF])
   \<and> length (snd (SnmpScan (ps5_env silent_tool) (''10.30.6.0'' @ [LF]))) = 254
   \<and> snd (hd (snd (SnmpScan (ps5_env silent_tool) (''10.30.6.0'' @ [LF])))) ! 7 =
       ''10.30.6'' @ [LF] @ ''.1''
   \<and> resolve ''10.30.6.0 '' = Inl InvalidSpec
   \<and> SnmpScan (ps5_env silent_tool) ''10.30.6'' = (Inl InvalidSpec, [])"
proof (intro conjI)
  show r: "resolve (''10.30.6.0'' @ [LF]) = Inr (''10.30.6'' @ [LF])"
    by code_simp
  have g: "Get_Command (ps5_env silent_tool) SnmpExe"
    and v: "\<not> 7 \<le> PSVersion_Major (ps5_env silent_tool)"
    and j: "ThreadJob_listed (ps5_env silent_tool) \<or> Install_Module_ok (ps5_env silent_tool)"
    by (simp_all add: ps5_env_def SnmpExe_def)
  have log: "snd (SnmpScan (ps5_env silent_tool) (''10.30.6.0'' @ [LF])) =
      map (\<lambda>i. (SnmpExe, snmp_args Community Timeout (host_address (''10.30.6'' @ [LF]) i) OID))
        hosts"
    by (simp only: SnmpScan_ps5 [OF r g v j] snd_conv)
  show "length (snd (SnmpScan (ps5_env silent_tool) (''10.30.6.0'' @ [LF]))) = 254"
    unfolding log by (simp add: length_hosts)
  show "snd (hd (snd (SnmpScan (ps5_env silent_tool) (''10.30.6.0'' @ [LF])))) ! 7 =
       ''10.30.6'' @ [LF] @ ''.1''"
    unfolding log hosts_Cons
    by (simp add: snmp_args_def host_address_def dec.simps digit_char_def)
  show "resolve ''10.30.6.0 '' = Inl InvalidSpec"
    by code_simp
  have "\<not> network_format ''10.30.6''"
    by code_simp
  then show "SnmpScan (ps5_env silent_tool) ''10.30.6'' = (Inl InvalidSpec, [])"
    by (rule invalid_spec_no_probe)
qed

text \<open>
  C7. For a network argument of the shape \<open>A.B.C.D\<close> or \<open>A.B.C.D/mask\<close> the base is
  \<open>A.B.C\<close>, whatever the mask. The targets both strategies walk are the 254 addresses
  base.1 to base.254, in this order, and base.0 and base.255 are not among them. A scan
  that gets past its checks of the host runs the tool, on the thread job path, for
  exactly these targets in this order; on PowerShell 7 the blocks form the targets and
  no tool is run. On either path no address outside the targets is probed, so base.0
  and base.255 never are.
\<close>

theorem resolve_base_prefix_and_targets:
  assumes "number a" "number b" "number c" "number d"
    and "Network = dotted_quad a b c d \<or>
         (\<exists>m. number m \<and> Network = dotted_quad a b c d @ ''/'' @ m)"
    and "Get_Command env SnmpExe"
    and "7 \<le> PSVersion_Major env \<or> ThreadJob_listed env \<or> Install_Module_ok env"
  shows "resolve Network = Inr (a @ ''.'' @ b @ ''.'' @ c)
    \<and> map (host_address (a @ ''.'' @ b @ ''.'' @ c)) hosts =
        map (\<lambda>i. a @ ''.'' @ b @ ''.'' @ c @ ''.'' @ dec i) [1..<255]
    \<and> length (map (host_address (a @ ''.'' @ b @ ''.'' @ c)) hosts) = 254
    \<and> dec 1 = ''1'' \<and> dec 254 = ''254''
    \<and> a @ ''.'' @ b @ ''.'' @ c @ ''.0'' \<notin> set (map (host_address (a @ ''.'' @ b @ ''.'' @ c)) hosts)
    \<and> a @ ''.'' @ b @ ''.'' @ c @ ''.255'' \<notin> set (map (host_address (a @ ''.'' @ b @ ''.'' @ c)) hosts)
    \<and> (\<not> 7 \<le> PSVersion_Major env \<longrightarrow>
         map (\<lambda>inv. snd inv ! 7) (snd (SnmpScan env Network)) =
           map (\<lambda>i. a @ ''.'' @ b @ ''.'' @ c @ ''.'' @ dec i) [1..<255])
    \<and> (7 \<le> PSVersion_Major env \<longrightarrow> snd (SnmpScan env Network) = [])
    \<and> set (map (\<lambda>inv. snd inv ! 7) (snd (SnmpScan env Network)))
         \<subseteq> set (map (host_address (a @ ''.'' @ b @ ''.'' @ c)) hosts)
    \<and> a @ ''.'' @ b @ ''.'' @ c @ ''.0'' \<notin> set (map (\<lambda>inv. snd inv ! 7) (snd (SnmpScan env Network)))
    \<and> a @ ''.'' @ b @ ''.'' @ c @ ''.255'' \<notin> set (map (\<lambda>inv. snd inv ! 7) (snd (SnmpScan env Network)))"
proof -
  let ?base = "a @ ''.'' @ b @ ''.'' @ c"
  let ?probed = "map (\<lambda>inv. snd inv ! 7) (snd (SnmpScan env Network))"
  have r: "resolve Network = Inr ?base"
    using assms(5) resolve_quad [OF assms(1-4)] resolve_mask [OF assms(1-4)] by blast
  have ts: "map (host_address ?base) hosts =
      map (\<lambda>i. a @ ''.'' @ b @ ''.'' @ c @ ''.'' @ dec i) [1..<255]"
    by (simp add: host_address_def hosts_def)
  have len: "length (map (host_address ?base) hosts) = 254"
    by (simp add: length_hosts)
  have d1: "dec 1 = ''1''" and d254: "dec 254 = ''254''"
    and d0: "dec 0 = ''0''" and d255: "dec 255 = ''255''"
    by code_simp+
  have n0: "a @ ''.'' @ b @ ''.'' @ c @ ''.0'' \<notin> set (map (host_address ?base) hosts)"
  proof
    assume "a @ ''.'' @ b @ ''.'' @ c @ ''.0'' \<in> set (map (host_address ?base) hosts)"
    then obtain i where i: "1 \<le> i" "i < 255"
      and "a @ ''.'' @ b @ ''.'' @ c @ ''.0'' = a @ ''.'' @ b @ ''.'' @ c @ ''.'' @ dec i"
      unfolding ts by auto
    then have "dec 0 = dec i" by (simp add: d0)
    then have "0 = i" by (rule dec_inj)
    with i show False by simp
  qed
  have n255: "a @ ''.'' @ b @ ''.'' @ c @ ''.255'' \<notin> set (map (host_address ?base) hosts)"
  proof
    assume "a @ ''.'' @ b @ ''.'' @ c @ ''.255'' \<in> set (map (host_address ?base) hosts)"
    then obtain i where i: "1 \<le> i" "i < 255"
      and "a @ ''.'' @ b @ ''.'' @ c @ ''.255'' = a @ ''.'' @ b @ ''.'' @ c @ ''.'' @ dec i"
      unfolding ts by auto
    then have "dec 255 = dec i" by (simp add: d255)
    then have "255 = i" by (rule dec_inj)
    with i show False by simp
  qed
  have job: "\<not> 7 \<le> PSVersion_Major env \<longrightarrow>
      ?probed = map (\<lambda>i. a @ ''.'' @ b @ ''.'' @ c @ ''.'' @ dec i) [1..<255]"
  proof
    assume v: "\<not> 7 \<le> PSVersion_Major env"
    with assms(7) have m: "ThreadJob_listed env \<or> Install_Module_ok env" by simp
    have "snd (SnmpScan env Network) =
        map (\<lambda>i. (SnmpExe, snmp_args Community Timeout (host_address ?base i) OID)) hosts"
      by (simp only: SnmpScan_ps5 [OF r assms(6) v m] snd_conv)
    then have "?probed = map (host_address ?base) hosts"
      by (simp add: comp_def snmp_args_def)
    then show "?probed = map (\<lambda>i. a @ ''.'' @ b @ ''.'' @ c @ ''.'' @ dec i) [1..<255]"
      by (simp only: ts)
  qed
  have par: "7 \<le> PSVersion_Major env \<longrightarrow> snd (SnmpScan env Network) = []"
  proof
    assume v: "7 \<le> PSVersion_Major env"
    show "snd (SnmpScan env Network) = []"
      by (simp only: SnmpScan_ps7 [OF r assms(6) v] snd_conv)
  qed
  have sub: "set ?probed \<subseteq> set (map (host_address ?base) hosts)"
  proof (cases "7 \<le> PSVersion_Major env")
    case True
    with par show ?thesis by simp
  next
    case False
    with job have "?probed = map (\<lambda>i. a @ ''.'' @ b @ ''.'' @ c @ ''.'' @ dec i) [1..<255]"
      by blast
    then have "?probed = map (host_address ?base) hosts"
      by (simp only: ts)
    then show ?thesis by simp
  qed
  have p0: "a @ ''.'' @ b @ ''.'' @ c @ ''.0'' \<notin> set ?probed"
    using sub n0 by blast
  have p255: "a @ ''.'' @ b @ ''.'' @ c @ ''.255'' \<notin> set ?probed"
    using sub n255 by blast
  show ?thesis
    by (intro conjI) (rule r ts len d1 d254 n0 n255 job par sub p0 p255)+
qed

theorem resolve_base_prefix_and_targets_witness:
  "number ''10'' \<and> number ''30'' \<and> number ''6'' \<and> number ''0'' \<and> number ''30''
   \<and> ''10.30.6.0/30'' = dotted_quad ''10'' ''30'' ''6'' ''0'' @ ''/'' @ ''30''
   \<and> Get_Command (ps5_env scenario_tool) SnmpExe
   \<and> ThreadJob_listed (ps5_env scenario_tool)
   \<and> \<not> 7 \<le> PSVersion_Major (ps5_env scenario_tool)
   \<and> resolve ''10.30.6.0/30'' = Inr ''10.30.6''
   \<and> length (snd (SnmpScan (ps5_env scenario_tool) ''10.30.6.0/30'')) = 254
   \<and> ''10.30.6.0'' \<notin> set (map (\<lambda>inv. snd inv ! 7) (snd (SnmpScan (ps5_env scenario_tool) ''10.30.6.0/30'')))
   \<and> ''10.30.6.255'' \<notin> set (map (\<lambda>inv. snd inv ! 7) (snd (SnmpScan (ps5_env scenario_tool) ''10.30.6.0/30'')))"
proof -
  have n: "number ''10''" "number ''30''" "number ''6''" "number ''0''"
    by (simp_all add: number_def is_digit_def)
  have s: "''10.30.6.0/30'' = dotted_quad ''10'' ''30'' ''6'' ''0'' @ ''/'' @ ''30''"
    by (simp add: dotted_quad_def)
  have h: "''10.30.6.0/30'' = dotted_quad ''10'' ''30'' ''6'' ''0'' \<or>
      (\<exists>m. number m \<and> ''10.30.6.0/30'' = dotted_quad ''10'' ''30'' ''6'' ''0'' @ ''/'' @ m)"
    using n(2) s by blast
  have g: "Get_Command (ps5_env scenario_tool) SnmpExe"
    and tj: "ThreadJob_listed (ps5_env scenario_tool)"
    and v: "\<not> 7 \<le> PSVersion_Major (ps5_env scenario_tool)"
    by (simp_all add: ps5_env_def SnmpExe_def)
  have j: "7 \<le> PSVersion_Major (ps5_env scenario_tool) \<or> ThreadJob_listed (ps5_env scenario_tool)
      \<or> Install_Module_ok (ps5_env scenario_tool)"
    using tj by simp
  note t = resolve_base_prefix_and_targets [OF n h g j]
  note t1 = t [THEN conjunct1]
  note rest = t [THEN conjunct2, THEN conjunct2, THEN conjunct2, THEN conjunct2, THEN conjunct2,
      THEN conjunct2, THEN conjunct2]
  note t8 = rest [THEN conjunct1, rule_format, OF v]
  note t11 = rest [THEN conjunct2, THEN conjunct2, THEN conjunct2, THEN conjunct1]
  note t12 = rest [THEN conjunct2, THEN conjunct2, THEN conjunct2, THEN conjunct2]
  have c1: "resolve ''10.30.6.0/30'' = Inr ''10.30.6''"
    using t1 by simp
  have "length (map (\<lambda>inv. snd inv ! 7) (snd (SnmpScan (ps5_env scenario_tool) ''10.30.6.0/30''))) = 254"
    by (simp only: t8) simp
  then have c2: "length (snd (SnmpScan (ps5_env scenario_tool) ''10.30.6.0/30'')) = 254"
    by simp
  have c3: "''10.30.6.0'' \<notin> set (map (\<lambda>inv. snd inv ! 7)
      (snd (SnmpScan (ps5_env scenario_tool) ''10.30.6.0/30'')))"
    using t11 by simp
  have c4: "''10.30.6.255'' \<notin> set (map (\<lambda>inv. snd inv ! 7)
      (snd (SnmpScan (ps5_env scenario_tool) ''10.30.6.0/30'')))"
    using t12 by simp
  show ?thesis
    by (intro conjI) (rule n s g tj v c1 c2 c3 c4)+
qed

end
